theory Spec2Isabelle
  imports Main "HOL-Library.Sublist"
begin

section \<open>JavaScript strings\<close>

text \<open>
  A JavaScript string is a sequence of UTF-16 code units. The patterns of
  \<^verbatim>\<open>src/lib/masking-engine.js\<close> are compiled without the \<^verbatim>\<open>u\<close> flag, so matching,
  \<^verbatim>\<open>slice\<close>, \<^verbatim>\<open>startsWith\<close>, \<^verbatim>\<open>endsWith\<close> and \<^verbatim>\<open>replaceAll\<close> all work on code units.
  A code unit is a natural number; \<open>js\<close> embeds an ASCII literal.
\<close>

type_synonym jsstring = "nat list"

definition js :: "string \<Rightarrow> jsstring" where
  "js s = map of_char s"

text \<open>\<^verbatim>\<open>s.startsWith(p)\<close> and \<^verbatim>\<open>s.endsWith(p)\<close>.\<close>

definition startsWith :: "jsstring \<Rightarrow> jsstring \<Rightarrow> bool" where
  "startsWith s p = (take (length p) s = p)"

definition endsWith :: "jsstring \<Rightarrow> jsstring \<Rightarrow> bool" where
  "endsWith s p = (length p \<le> length s \<and> drop (length s - length p) s = p)"

text \<open>
  \<^verbatim>\<open>String.fromCharCode(n)\<close> takes its argument modulo \<open>2^16\<close> (ToUint16); a
  \<^verbatim>\<open>NaN\<close> argument gives the code unit 0.
\<close>

datatype jsnum = Num nat | NaN

definition fromCharCode :: "jsnum \<Rightarrow> nat" where
  "fromCharCode v = (case v of Num n \<Rightarrow> n mod 65536 | NaN \<Rightarrow> 0)"

definition js_plus :: "nat \<Rightarrow> jsnum \<Rightarrow> jsnum" where
  "js_plus a v = (case v of Num n \<Rightarrow> Num (a + n) | NaN \<Rightarrow> NaN)"


section \<open>Regular expressions\<close>

text \<open>
  A rule holds a global \<^verbatim>\<open>RegExp\<close>. The engine uses it in one way only,
  \<^verbatim>\<open>[...text.matchAll(regex)]\<close>, and reads \<^verbatim>\<open>match.index\<close> and \<^verbatim>\<open>match[0]\<close> of every
  match. A \<^verbatim>\<open>RegExp\<close> is therefore modelled by the function that sends a text to
  the list of its matches \<open>(index, matched text)\<close>, in the order \<^verbatim>\<open>matchAll\<close> yields
  them. (\<^verbatim>\<open>matchAll\<close> works on a clone of the \<^verbatim>\<open>RegExp\<close> and leaves the rule's object
  untouched, so the function does not change between calls. A \<^verbatim>\<open>RegExp\<close> without
  the \<^verbatim>\<open>g\<close> flag makes \<^verbatim>\<open>matchAll\<close> throw; the constructor and the side panel build
  every pattern with \<^verbatim>\<open>g\<close>, and such objects are outside this type.)
\<close>

type_synonym regexp = "jsstring \<Rightarrow> (nat \<times> jsstring) list"

text \<open>
  What ECMAScript guarantees of the matches of a global \<^verbatim>\<open>RegExp\<close> on \<open>s\<close>, read
  from position \<open>i\<close> on: every match is the substring of \<open>s\<close> at its index, the
  matches come left to right and do not overlap, and an empty match is followed by
  a match at a strictly larger index.
\<close>

fun matches_from :: "nat \<Rightarrow> jsstring \<Rightarrow> (nat \<times> jsstring) list \<Rightarrow> bool" where
  "matches_from i s [] = True"
| "matches_from i s ((j, m) # ms) =
     (i \<le> j \<and> j + length m \<le> length s \<and> take (length m) (drop j s) = m \<and>
      matches_from (if m = [] then Suc j else j + length m) s ms)"

definition wf_matches :: "jsstring \<Rightarrow> (nat \<times> jsstring) list \<Rightarrow> bool" where
  "wf_matches s ms = matches_from 0 s ms"

text \<open>
  The syntax of the built-in patterns: character classes (a list of code-unit
  ranges, possibly negated), literals, sequence, alternation, and greedy bounded or
  unbounded repetition of a character class. \<open>rmatch\<close> is the backtracking matcher
  of ECMAScript on this fragment: alternatives left to right, repetition greedy,
  with the continuation \<open>k\<close> deciding whether the rest of the pattern matches.
\<close>

datatype cclass = CC bool "(nat \<times> nat) list"

definition in_class :: "cclass \<Rightarrow> nat \<Rightarrow> bool" where
  "in_class cl c = (case cl of CC neg rs \<Rightarrow> neg \<noteq> list_ex (\<lambda>(lo, hi). lo \<le> c \<and> c \<le> hi) rs)"

datatype regex =
    Chars cclass
  | Lit jsstring
  | Seq regex regex
  | Alt regex regex
  | Rep nat "nat option" cclass
  | Empty

fun rep_greedy :: "cclass \<Rightarrow> nat \<Rightarrow> nat option \<Rightarrow> jsstring \<Rightarrow> (jsstring \<Rightarrow> 'a option) \<Rightarrow> 'a option" where
  "rep_greedy cl mn mx [] k = (if mn = 0 then k [] else None)"
| "rep_greedy cl mn mx (c # cs) k =
     (if in_class cl c \<and> mx \<noteq> Some 0
      then (case rep_greedy cl (mn - 1) (map_option (\<lambda>m. m - 1) mx) cs k of
              Some r \<Rightarrow> Some r
            | None \<Rightarrow> if mn = 0 then k (c # cs) else None)
      else if mn = 0 then k (c # cs) else None)"

fun rmatch :: "regex \<Rightarrow> jsstring \<Rightarrow> (jsstring \<Rightarrow> 'a option) \<Rightarrow> 'a option" where
  "rmatch (Chars cl) s k = (case s of [] \<Rightarrow> None | c # cs \<Rightarrow> if in_class cl c then k cs else None)"
| "rmatch (Lit w) s k = (if startsWith s w then k (drop (length w) s) else None)"
| "rmatch (Seq a b) s k = rmatch a s (\<lambda>s'. rmatch b s' k)"
| "rmatch (Alt a b) s k = (case rmatch a s k of Some r \<Rightarrow> Some r | None \<Rightarrow> rmatch b s k)"
| "rmatch (Rep mn mx cl) s k = rep_greedy cl mn mx s k"
| "rmatch Empty s k = k s"

text \<open>
  \<^verbatim>\<open>matchAll\<close> with the \<^verbatim>\<open>g\<close> flag: the leftmost match from the current position
  on, then on from its end (one further after an empty match). \<open>rmatch r s Some\<close>
  returns the text left after the match.
\<close>

fun matchAll_from :: "regex \<Rightarrow> nat \<Rightarrow> jsstring \<Rightarrow> (nat \<times> jsstring) list" where
  "matchAll_from r i [] = (case rmatch r [] Some of None \<Rightarrow> [] | Some rest \<Rightarrow> [(i, [])])"
| "matchAll_from r i (c # cs) =
     (case rmatch r (c # cs) Some of
        None \<Rightarrow> matchAll_from r (Suc i) cs
      | Some rest \<Rightarrow>
          (if length cs < length rest then (i, []) # matchAll_from r (Suc i) cs
           else (i, take (Suc (length cs) - length rest) (c # cs)) #
                matchAll_from r (i + (Suc (length cs) - length rest))
                  (drop (length cs - length rest) cs)))"

definition RegExp_g :: "regex \<Rightarrow> regexp" where
  "RegExp_g r = matchAll_from r 0"

text \<open>
  \<open>needs C r\<close>: read off the syntax, every match of \<open>r\<close> contains a literal with
  a code unit of \<open>C\<close>.
\<close>

fun needs :: "nat list \<Rightarrow> regex \<Rightarrow> bool" where
  "needs C (Lit w) = list_ex (\<lambda>c. c \<in> set C) w"
| "needs C (Seq a b) = (needs C a \<or> needs C b)"
| "needs C (Alt a b) = (needs C a \<and> needs C b)"
| "needs C (Chars cl) = False"
| "needs C (Rep mn mx cl) = False"
| "needs C Empty = False"

text \<open>The character classes \<^verbatim>\<open>\s\<close>, \<^verbatim>\<open>\d\<close>, \<^verbatim>\<open>\w\<close> and \<^verbatim>\<open>.\<close> of ECMAScript.\<close>

definition ws_ranges :: "(nat \<times> nat) list" where
  "ws_ranges = [(9, 13), (32, 32), (160, 160), (5760, 5760), (8192, 8202), (8232, 8233),
     (8239, 8239), (8287, 8287), (12288, 12288), (65279, 65279)]"

definition digit_ranges :: "(nat \<times> nat) list" where
  "digit_ranges = [(48, 57)]"

definition word_ranges :: "(nat \<times> nat) list" where
  "word_ranges = [(48, 57), (65, 90), (95, 95), (97, 122)]"

definition dot :: cclass where
  "dot = CC True [(10, 10), (13, 13), (8232, 8233)]"


section \<open>\<^verbatim>\<open>String.prototype.replaceAll\<close> with a string pattern\<close>

text \<open>
  \<^verbatim>\<open>str.replaceAll(search, replacement)\<close> with two strings looks for the literal
  occurrences of \<open>search\<close>, left to right and without overlap; each is replaced by
  the expansion of the replacement \<^emph>\<open>template\<close> (ECMAScript's GetSubstitution):
  \<^verbatim>\<open>$$\<close> stands for a dollar sign, \<^verbatim>\<open>$&\<close> for the matched text, \<^verbatim>\<open>$`\<close> for the part of
  \<open>str\<close> before the match and \<^verbatim>\<open>$'\<close> for the part after it. There are no captures, so
  \<^verbatim>\<open>$1\<close> and \<^verbatim>\<open>$<\<close> stand for themselves, as does every other character. The code
  units are 36 for \<^verbatim>\<open>$\<close>, 38 for \<^verbatim>\<open>&\<close>, 96 for the backquote and 39 for the quote.
\<close>

fun GetSubstitution :: "jsstring \<Rightarrow> jsstring \<Rightarrow> nat \<Rightarrow> jsstring \<Rightarrow> jsstring" where
  "GetSubstitution matched str position [] = []"
| "GetSubstitution matched str position [c] = [c]"
| "GetSubstitution matched str position (c # d # template) =
     (if c = 36 \<and> d = 36 then 36 # GetSubstitution matched str position template
      else if c = 36 \<and> d = 38 then matched @ GetSubstitution matched str position template
      else if c = 36 \<and> d = 96 then take position str @ GetSubstitution matched str position template
      else if c = 36 \<and> d = 39
        then drop (position + length matched) str @ GetSubstitution matched str position template
      else c # GetSubstitution matched str position (d # template))"

text \<open>
  \<open>replace_from\<close> scans the rest of \<open>str\<close> from position \<open>i\<close> for a non-empty
  \<open>search\<close>. An empty \<open>search\<close> matches before every code unit and at the end
  (\<open>replace_empty\<close>).
\<close>

function replace_from :: "jsstring \<Rightarrow> jsstring \<Rightarrow> jsstring \<Rightarrow> nat \<Rightarrow> jsstring \<Rightarrow> jsstring" where
  "replace_from search replacement str i [] = []"
| "replace_from search replacement str i (c # cs) =
     (if search \<noteq> [] \<and> startsWith (c # cs) search
      then GetSubstitution search str i replacement @
           replace_from search replacement str (i + length search) (drop (length search) (c # cs))
      else c # replace_from search replacement str (Suc i) cs)"
  by pat_completeness auto
termination
  by (relation "measure (\<lambda>(search, replacement, str, i, rest). length rest)") auto

fun replace_empty :: "jsstring \<Rightarrow> jsstring \<Rightarrow> nat \<Rightarrow> jsstring \<Rightarrow> jsstring" where
  "replace_empty replacement str i [] = GetSubstitution [] str i replacement"
| "replace_empty replacement str i (c # cs) =
     GetSubstitution [] str i replacement @ c # replace_empty replacement str (Suc i) cs"

definition replaceAll :: "jsstring \<Rightarrow> jsstring \<Rightarrow> jsstring \<Rightarrow> jsstring" where
  "replaceAll str search replacement =
     (if search = [] then replace_empty replacement str 0 str
      else replace_from search replacement str 0 str)"


section \<open>Objects used as dictionaries\<close>

text \<open>
  \<^verbatim>\<open>this.patterns\<close> is a plain object. \<^verbatim>\<open>Object.entries\<close> lists its own properties:
  keys that are array indices first, in ascending numeric order, then the other
  keys in the order they were created. Assigning to an existing key keeps its
  place. Assigning to \<^verbatim>\<open>__proto__\<close> calls the setter of \<^verbatim>\<open>Object.prototype\<close> and creates
  no own property. The object is the list of its entries in the order of
  \<^verbatim>\<open>Object.entries\<close>.
\<close>

definition is_digit :: "nat \<Rightarrow> bool" where
  "is_digit c = (48 \<le> c \<and> c \<le> 57)"

definition decimal :: "jsstring \<Rightarrow> nat" where
  "decimal s = foldl (\<lambda>n c. 10 * n + (c - 48)) 0 s"

definition array_index :: "jsstring \<Rightarrow> nat option" where
  "array_index k =
     (if k \<noteq> [] \<and> list_all is_digit k \<and> (hd k \<noteq> 48 \<or> length k = 1) \<and> decimal k \<le> 4294967294
      then Some (decimal k) else None)"

fun insert_index :: "jsstring \<Rightarrow> nat \<Rightarrow> 'v \<Rightarrow> (jsstring \<times> 'v) list \<Rightarrow> (jsstring \<times> 'v) list" where
  "insert_index k n v [] = [(k, v)]"
| "insert_index k n v ((k', v') # ps) =
     (case array_index k' of
        Some n' \<Rightarrow> if n' < n then (k', v') # insert_index k n v ps else (k, v) # (k', v') # ps
      | None \<Rightarrow> (k, v) # (k', v') # ps)"

definition object_set :: "(jsstring \<times> 'v) list \<Rightarrow> jsstring \<Rightarrow> 'v \<Rightarrow> (jsstring \<times> 'v) list" where
  "object_set ps k v =
     (if k = js ''__proto__'' then ps
      else if k \<in> set (map fst ps) then map (\<lambda>(k', v'). if k' = k then (k', v) else (k', v')) ps
      else case array_index k of
             Some n \<Rightarrow> insert_index k n v ps
           | None \<Rightarrow> ps @ [(k, v)])"

definition object_delete :: "(jsstring \<times> 'v) list \<Rightarrow> jsstring \<Rightarrow> (jsstring \<times> 'v) list" where
  "object_delete ps k = filter (\<lambda>(k', v'). k' \<noteq> k) ps"

text \<open>
  \<^verbatim>\<open>this.counter\<close> is a plain object too, read as \<^verbatim>\<open>this.counter[patternKey]\<close>. A
  key with no own property is looked up in \<^verbatim>\<open>Object.prototype\<close>: for the names
  below the result is a function (an object for \<^verbatim>\<open>__proto__\<close>), which is truthy and
  which \<^verbatim>\<open>++\<close> turns into \<^verbatim>\<open>NaN\<close>; for every other name it is \<^verbatim>\<open>undefined\<close>. The
  counter object is the map of its own properties.
\<close>

type_synonym counter_obj = "jsstring \<rightharpoonup> jsnum"

definition Object_prototype_keys :: "jsstring list" where
  "Object_prototype_keys =
     [js ''constructor'', js ''__defineGetter__'', js ''__defineSetter__'', js ''hasOwnProperty'',
      js ''__lookupGetter__'', js ''__lookupSetter__'', js ''isPrototypeOf'',
      js ''propertyIsEnumerable'', js ''toString'', js ''valueOf'', js ''__proto__'',
      js ''toLocaleString'']"

text \<open>The truth value of \<^verbatim>\<open>this.counter[patternKey]\<close>.\<close>

definition counter_truthy :: "counter_obj \<Rightarrow> jsstring \<Rightarrow> bool" where
  "counter_truthy c k =
     (case c k of
        Some (Num n) \<Rightarrow> n \<noteq> 0
      | Some NaN \<Rightarrow> False
      | None \<Rightarrow> k \<in> set Object_prototype_keys)"

text \<open>\<^verbatim>\<open>if (!this.counter[patternKey]) this.counter[patternKey] = 0\<close>.\<close>

definition counter_init :: "counter_obj \<Rightarrow> jsstring \<Rightarrow> counter_obj" where
  "counter_init c k = (if counter_truthy c k then c else c(k \<mapsto> Num 0))"

text \<open>
  \<^verbatim>\<open>this.counter[patternKey]++\<close>: a number is incremented; \<^verbatim>\<open>NaN\<close>, \<^verbatim>\<open>undefined\<close> and an
  inherited function give \<^verbatim>\<open>NaN\<close>, stored as an own property (the setter of
  \<^verbatim>\<open>__proto__\<close> ignores a number).
\<close>

definition counter_incr :: "counter_obj \<Rightarrow> jsstring \<Rightarrow> counter_obj" where
  "counter_incr c k =
     (case c k of
        Some (Num n) \<Rightarrow> c(k \<mapsto> Num (n + 1))
      | Some NaN \<Rightarrow> c
      | None \<Rightarrow> if k = js ''__proto__'' then c else c(k \<mapsto> NaN))"

text \<open>The number read by \<^verbatim>\<open>64 + this.counter[patternKey]\<close> after the increment.\<close>

definition counter_read :: "counter_obj \<Rightarrow> jsstring \<Rightarrow> jsnum" where
  "counter_read c k = (case c k of Some v \<Rightarrow> v | None \<Rightarrow> NaN)"

text \<open>
  A \<^verbatim>\<open>Map\<close> keeps its entries in insertion order; \<^verbatim>\<open>set\<close> on a key that is present
  replaces the value in place.
\<close>

type_synonym table = "(jsstring \<times> jsstring) list"

definition Map_set :: "table \<Rightarrow> jsstring \<Rightarrow> jsstring \<Rightarrow> table" where
  "Map_set m k v =
     (if k \<in> set (map fst m) then map (\<lambda>(k', v'). if k' = k then (k', v) else (k', v')) m
      else m @ [(k, v)])"

text \<open>
  \<^verbatim>\<open>Map\<close> objects are shared by reference: the store holds the entries of every
  \<^verbatim>\<open>Map\<close> allocated so far, and a reference is an index into it.
\<close>

type_synonym heap = "table list"

definition new_Map :: "heap \<Rightarrow> table \<Rightarrow> nat \<times> heap" where
  "new_Map h entries = (length h, h @ [entries])"

definition Map_entries :: "heap \<Rightarrow> nat \<Rightarrow> table" where
  "Map_entries h a = h ! a"


section \<open>The masking engine\<close>

record patternConfig =
  regex :: regexp
  label :: jsstring
  description :: jsstring

record detection =
  type :: jsstring
  description :: jsstring
  original :: jsstring
  masked :: jsstring
  startIndex :: nat
  endIndex :: nat

record MaskingEngine =
  patterns :: "(jsstring \<times> patternConfig) list"
  mappingTable :: nat
  counter :: counter_obj

record mask_result =
  maskedText :: jsstring
  detections :: "detection list"
  mappingTable :: nat


subsection \<open>The built-in patterns\<close>

text \<open>
  The five patterns of the constructor, with their non-ASCII characters written as
  code units. \<open>kanji\<close> is the class of the name pattern (U+4E00 to U+9FAF, and
  U+3005); \<open>word_dot_dash\<close> is \<^verbatim>\<open>[\w\.-]\<close>; \<open>space_class\<close> is \<^verbatim>\<open>\s\<close> with U+3000;
  \<open>not_separator\<close> is the negated class of \<^verbatim>\<open>\s\<close>, U+3001, U+3002, comma and full stop.
\<close>

definition kanji :: cclass where
  "kanji = CC False [(19968, 40879), (12293, 12293)]"

definition word_dot_dash :: cclass where
  "word_dot_dash = CC False (word_ranges @ [(46, 46), (45, 45)])"

definition dash_space :: cclass where
  "dash_space = CC False ((45, 45) # ws_ranges)"

definition space_class :: cclass where
  "space_class = CC False (ws_ranges @ [(12288, 12288)])"

definition not_separator :: cclass where
  "not_separator = CC True (ws_ranges @ [(12289, 12289), (12290, 12290), (44, 44), (46, 46)])"

fun alts :: "regex list \<Rightarrow> regex" where
  "alts [] = Empty"
| "alts [r] = r"
| "alts (r # rs) = Alt r (alts rs)"

fun seqs :: "regex list \<Rightarrow> regex" where
  "seqs [] = Empty"
| "seqs [r] = r"
| "seqs (r # rs) = Seq r (seqs rs)"

text \<open>
  The name pattern: two to four kanji, optional white space, two to four kanji, and
  an optional honorific (san, sama, shi, dono, kun, chan).
\<close>

definition name_regex :: regex where
  "name_regex = seqs
     [Rep 2 (Some 4) kanji,
      Alt (Rep 1 None (CC False ws_ranges)) Empty,
      Rep 2 (Some 4) kanji,
      Alt (alts [Lit [12373, 12435], Lit [27096], Lit [27663], Lit [27583],
                 Lit [12367, 12435], Lit [12385, 12419, 12435]]) Empty]"

definition email_regex :: regex where
  "email_regex = seqs
     [Rep 1 None word_dot_dash, Lit (js ''@''), Rep 1 None word_dot_dash, Lit (js ''.''),
      Rep 1 None (CC False word_ranges)]"

definition phone_regex :: regex where
  "phone_regex = seqs
     [Lit (js ''0''), Rep 1 (Some 4) (CC False digit_ranges), Rep 0 (Some 1) dash_space,
      Rep 1 (Some 4) (CC False digit_ranges), Rep 0 (Some 1) dash_space,
      Rep 4 (Some 4) (CC False digit_ranges)]"

text \<open>
  The address pattern: Tokyo-to, Hokkaido, Kyoto-fu or Osaka-fu, or any two or three
  characters followed by the character for prefecture (30476), then optional space
  and two or more characters that are no separators.
\<close>

definition address_regex :: regex where
  "address_regex = seqs
     [alts [Lit [26481, 20140, 37117], Lit [21271, 28023, 36947],
            Seq (Alt (Lit [20140, 37117]) (Lit [22823, 38442])) (Lit [24220]),
            Seq (Rep 2 (Some 3) dot) (Lit [30476])],
      Rep 0 None space_class,
      Rep 2 None not_separator]"

text \<open>
  The company pattern: a legal form (kabushiki-gaisha, yugen-gaisha, godo-gaisha,
  ippan-shadan-hojin, koeki-zaidan-hojin) before the name, or one of the first three
  after it.
\<close>

definition company_regex :: regex where
  "company_regex =
     Alt (seqs [alts [Lit [26666, 24335, 20250, 31038], Lit [26377, 38480, 20250, 31038],
                      Lit [21512, 21516, 20250, 31038],
                      Lit [19968, 33324, 31038, 22243, 27861, 20154],
                      Lit [20844, 30410, 36001, 22243, 27861, 20154]],
                Rep 0 None space_class,
                Rep 2 None not_separator])
         (Seq (Rep 2 None not_separator)
              (alts [Lit [26666, 24335, 20250, 31038], Lit [26377, 38480, 20250, 31038],
                     Lit [21512, 21516, 20250, 31038]]))"

definition builtin_patterns :: "(jsstring \<times> patternConfig) list" where
  "builtin_patterns =
     [(js ''name'', \<lparr>regex = RegExp_g name_regex, label = js ''Person'',
         description = [27663, 21517]\<rparr>),
      (js ''email'', \<lparr>regex = RegExp_g email_regex, label = js ''Email'',
         description = [12513, 12540, 12523, 12450, 12489, 12524, 12473]\<rparr>),
      (js ''phone'', \<lparr>regex = RegExp_g phone_regex, label = js ''Phone'',
         description = [38651, 35441, 30058, 21495]\<rparr>),
      (js ''address'', \<lparr>regex = RegExp_g address_regex, label = js ''Location'',
         description = [20303, 25152]\<rparr>),
      (js ''company'', \<lparr>regex = RegExp_g company_regex, label = js ''Company'',
         description = [20225, 26989, 21517]\<rparr>)]"

text \<open>
  \<^verbatim>\<open>new MaskingEngine()\<close>: the built-in patterns, a fresh empty \<^verbatim>\<open>Map\<close> and an empty
  counter object.
\<close>

definition MaskingEngine_new :: "heap \<Rightarrow> MaskingEngine \<times> heap" where
  "MaskingEngine_new h =
     (case new_Map h [] of (a, h') \<Rightarrow>
        (\<lparr>patterns = builtin_patterns, mappingTable = a, counter = Map.empty\<rparr>, h'))"

subsection \<open>\<^verbatim>\<open>mask\<close>\<close>

text \<open>
  The state of one pass: \<open>cnt\<close> is \<^verbatim>\<open>this.counter\<close>, \<open>tbl\<close> the entries of
  \<^verbatim>\<open>this.mappingTable\<close>, \<open>mtext\<close> the local \<^verbatim>\<open>maskedText\<close> and \<open>dets\<close> the local
  \<^verbatim>\<open>detections\<close> (in the order of \<^verbatim>\<open>push\<close>).
\<close>

record pass =
  cnt :: counter_obj
  tbl :: table
  mtext :: jsstring
  dets :: "detection list"

text \<open>The test \<^verbatim>\<open>originalText.startsWith('[') && originalText.endsWith(']')\<close>.\<close>

definition already_masked :: "jsstring \<Rightarrow> bool" where
  "already_masked originalText = (startsWith originalText (js ''['') \<and> endsWith originalText (js '']''))"

text \<open>The template literal that builds \<^verbatim>\<open>maskLabel\<close>.\<close>

definition mask_label :: "jsstring \<Rightarrow> jsnum \<Rightarrow> jsstring" where
  "mask_label lbl c = js ''['' @ lbl @ js ''_'' @ [fromCharCode (js_plus 64 c)] @ js '']''"

text \<open>The body of the inner loop, for one match.\<close>

definition mask_match :: "jsstring \<Rightarrow> patternConfig \<Rightarrow> nat \<times> jsstring \<Rightarrow> pass \<Rightarrow> pass" where
  "mask_match patternKey patternConfig match st =
     (let originalText = snd match;
          startIndex = fst match;
          endIndex = startIndex + length originalText
      in if already_masked originalText then st
         else
           let cnt' = counter_incr (cnt st) patternKey;
               maskLabel = mask_label (label patternConfig) (counter_read cnt' patternKey)
           in \<lparr>cnt = cnt',
               tbl = Map_set (tbl st) maskLabel originalText,
               mtext = take startIndex (mtext st) @ maskLabel @ drop endIndex (mtext st),
               dets = dets st @
                 [\<lparr>type = patternKey, description = patternConfig.description patternConfig,
                   original = originalText, masked = maskLabel,
                   startIndex = startIndex, endIndex = endIndex\<rparr>]\<rparr>)"

text \<open>The \<^verbatim>\<open>maskLabel\<close> that \<open>mask_match\<close> builds in the state \<open>st\<close>.\<close>

definition next_label :: "jsstring \<Rightarrow> patternConfig \<Rightarrow> pass \<Rightarrow> jsstring" where
  "next_label patternKey patternConfig st =
     mask_label (label patternConfig) (counter_read (counter_incr (cnt st) patternKey) patternKey)"

text \<open>
  The body of the outer loop, for one rule: the matches are those of the current
  \<^verbatim>\<open>maskedText\<close>, and they are processed from the last to the first.
\<close>

definition mask_rule :: "jsstring \<times> patternConfig \<Rightarrow> pass \<Rightarrow> pass" where
  "mask_rule entry st =
     (let patternKey = fst entry;
          patternConfig = snd entry;
          matches = regex patternConfig (mtext st)
      in if matches = [] then st
         else fold (mask_match patternKey patternConfig) (rev matches)
                (st\<lparr>cnt := counter_init (cnt st) patternKey\<rparr>))"

text \<open>
  \<^verbatim>\<open>enabledPatterns\<close> is \<^verbatim>\<open>null\<close> (\<open>None\<close>, the default) or an array of keys; an array,
  even an empty one, is truthy.
\<close>

definition patternsToUse :: "MaskingEngine \<Rightarrow> jsstring list option \<Rightarrow> (jsstring \<times> patternConfig) list" where
  "patternsToUse this enabledPatterns =
     (case enabledPatterns of
        None \<Rightarrow> patterns this
      | Some keys \<Rightarrow> filter (\<lambda>entry. fst entry \<in> set keys) (patterns this))"

definition mask_pass :: "(jsstring \<times> patternConfig) list \<Rightarrow> jsstring \<Rightarrow> pass" where
  "mask_pass rules text =
     fold mask_rule rules \<lparr>cnt = Map.empty, tbl = [], mtext = text, dets = []\<rparr>"

text \<open>
  \<^verbatim>\<open>mask(text, enabledPatterns)\<close> returns the result object, the engine and the store
  after the call. The entries of \<^verbatim>\<open>this.mappingTable\<close> are written to the store when
  the loops are over: no other code runs in between.
\<close>

definition mask :: "heap \<Rightarrow> MaskingEngine \<Rightarrow> jsstring \<Rightarrow> jsstring list option \<Rightarrow>
    mask_result \<times> MaskingEngine \<times> heap" where
  "mask h this text enabledPatterns =
     (if text = [] then
        (case new_Map h [] of (a, h') \<Rightarrow>
           (\<lparr>maskedText = [], detections = [], mappingTable = a\<rparr>, this, h'))
      else
        (case new_Map h [] of (a1, h1) \<Rightarrow>
           let st = mask_pass (patternsToUse this enabledPatterns) text;
               h2 = h1[a1 := tbl st]
           in (case new_Map h2 (Map_entries h2 a1) of (a2, h3) \<Rightarrow>
                 (\<lparr>maskedText = mtext st, detections = rev (dets st), mappingTable = a2\<rparr>,
                  this\<lparr>MaskingEngine.mappingTable := a1, counter := cnt st\<rparr>,
                  h3))))"

subsection \<open>\<^verbatim>\<open>restore\<close>, \<^verbatim>\<open>addCustomPattern\<close>, \<^verbatim>\<open>removePattern\<close>\<close>

text \<open>
  \<^verbatim>\<open>restore(maskedText, mappingTable)\<close> is given the entries of the \<^verbatim>\<open>Map\<close> (a \<^verbatim>\<open>Map\<close>
  object is truthy, so \<^verbatim>\<open>!mappingTable\<close> is false).
\<close>

definition restore :: "jsstring \<Rightarrow> table \<Rightarrow> jsstring" where
  "restore maskedText' mappingTable' =
     (if maskedText' = [] then maskedText'
      else fold (\<lambda>entry restoredText. replaceAll restoredText (fst entry) (snd entry))
             mappingTable' maskedText')"

definition addCustomPattern :: "MaskingEngine \<Rightarrow> jsstring \<Rightarrow> regexp \<Rightarrow> jsstring \<Rightarrow> jsstring \<Rightarrow> MaskingEngine" where
  "addCustomPattern this key regex' label' description' =
     this\<lparr>patterns := object_set (patterns this) key
       \<lparr>regex = regex', label = label', description = description'\<rparr>\<rparr>"

definition removePattern :: "MaskingEngine \<Rightarrow> jsstring \<Rightarrow> MaskingEngine" where
  "removePattern this key = this\<lparr>patterns := object_delete (patterns this) key\<rparr>"


section \<open>Predicates on texts and placeholders\<close>

text \<open>
  \<open>no_masked_substring t\<close>: no substring of \<open>t\<close> passes the test \<open>already_masked\<close>,
  that is, no \<^verbatim>\<open>[\<close> (code unit 91) of \<open>t\<close> is followed, anywhere later, by a \<^verbatim>\<open>]\<close>
  (code unit 93).
\<close>

fun no_masked_substring :: "jsstring \<Rightarrow> bool" where
  "no_masked_substring [] = True"
| "no_masked_substring (c # cs) = (if c = 91 then 93 \<notin> set cs else no_masked_substring cs)"

text \<open>
  \<open>dollar_free t\<close>: \<open>t\<close> holds none of the two-character patterns \<^verbatim>\<open>$$\<close>, \<^verbatim>\<open>$&\<close>,
  \<^verbatim>\<open>$`\<close>, \<^verbatim>\<open>$'\<close> that a replacement template expands.
\<close>

fun dollar_free :: "jsstring \<Rightarrow> bool" where
  "dollar_free [] = True"
| "dollar_free [c] = True"
| "dollar_free (c # d # cs) =
     (\<not> (c = 36 \<and> (d = 36 \<or> d = 38 \<or> d = 96 \<or> d = 39)) \<and> dollar_free (d # cs))"

text \<open>
  \<open>plain_placeholder p\<close>: \<open>p\<close> is \<^verbatim>\<open>[\<close>, a body without brackets, and \<^verbatim>\<open>]\<close>.
\<close>

definition plain_placeholder :: "jsstring \<Rightarrow> bool" where
  "plain_placeholder p =
     (case p of
        [] \<Rightarrow> False
      | c # cs \<Rightarrow> c = 91 \<and> cs \<noteq> [] \<and> last cs = 93 \<and> 91 \<notin> set (butlast cs) \<and> 93 \<notin> set (butlast cs))"


section \<open>Passes that keep away from earlier placeholders\<close>

text \<open>
  A masked text seen as a list of segments: a piece of the source text, or a
  placeholder together with the source text it stands for. \<open>flat\<close> is the masked
  text, \<open>source\<close> the text it was made from.
\<close>

datatype seg = Text jsstring | Mark jsstring jsstring

fun flat :: "seg list \<Rightarrow> jsstring" where
  "flat [] = []"
| "flat (Text s # r) = s @ flat r"
| "flat (Mark p orig # r) = p @ flat r"

fun source :: "seg list \<Rightarrow> jsstring" where
  "source [] = []"
| "source (Text s # r) = s @ source r"
| "source (Mark p orig # r) = orig @ source r"

text \<open>
  \<open>put i m p segs\<close> replaces the occurrence of \<open>m\<close> at index \<open>i\<close> of the masked text by
  the placeholder \<open>p\<close>, provided the occurrence lies inside one piece of source text;
  it is \<open>None\<close> when the span \<open>[i, i + length m)\<close> touches a placeholder or leaves the
  text.
\<close>

fun put :: "nat \<Rightarrow> jsstring \<Rightarrow> jsstring \<Rightarrow> seg list \<Rightarrow> seg list option" where
  "put i m p [] = None"
| "put i m p (Text s # r) =
     (if i + length m \<le> length s \<and> take (length m) (drop i s) = m
      then Some (Text (take i s) # Mark p m # Text (drop (i + length m) s) # r)
      else if length s \<le> i then map_option ((#) (Text s)) (put (i - length s) m p r)
      else None)"
| "put i m p (Mark q orig # r) =
     (if length q \<le> i then map_option ((#) (Mark q orig)) (put (i - length q) m p r)
      else None)"

text \<open>
  \<open>lits\<close> is the source text that is still unmasked, \<open>lead\<close> the part of it before
  the first placeholder, \<open>marks\<close> the placeholders with the texts they stand for.
  \<open>unmark p\<close> puts the source text back in the place of the placeholder \<open>p\<close>.
  \<open>seg_ok\<close> says that a piece of source text is \<open>dollar_free\<close>.
\<close>

fun lits :: "seg list \<Rightarrow> jsstring" where
  "lits [] = []"
| "lits (Text s # r) = s @ lits r"
| "lits (Mark p orig # r) = lits r"

fun lead :: "seg list \<Rightarrow> jsstring" where
  "lead [] = []"
| "lead (Text s # r) = s @ lead r"
| "lead (Mark p orig # r) = []"

fun marks :: "seg list \<Rightarrow> (jsstring \<times> jsstring) list" where
  "marks [] = []"
| "marks (Text s # r) = marks r"
| "marks (Mark p orig # r) = (p, orig) # marks r"

fun unmark :: "jsstring \<Rightarrow> seg list \<Rightarrow> seg list" where
  "unmark p [] = []"
| "unmark p (Text s # r) = Text s # unmark p r"
| "unmark p (Mark q orig # r) = (if q = p then Text orig else Mark q orig) # unmark p r"

fun seg_ok :: "seg \<Rightarrow> bool" where
  "seg_ok (Text s) = dollar_free s"
| "seg_ok (Mark p orig) = dollar_free orig"

text \<open>
  The loops of \<open>mask\<close> once more, with the segments carried along: \<open>None\<close> as soon as
  a match that is replaced does not lie inside source text that is still unmasked.
\<close>

definition clean_match :: "jsstring \<Rightarrow> patternConfig \<Rightarrow> nat \<times> jsstring \<Rightarrow>
    (pass \<times> seg list) option \<Rightarrow> (pass \<times> seg list) option" where
  "clean_match patternKey patternConfig match g =
     (case g of
        None \<Rightarrow> None
      | Some (st, segs) \<Rightarrow>
          if already_masked (snd match) then Some (st, segs)
          else
            (case put (fst match) (snd match) (next_label patternKey patternConfig st) segs of
               None \<Rightarrow> None
             | Some segs' \<Rightarrow> Some (mask_match patternKey patternConfig match st, segs')))"

definition clean_rule :: "jsstring \<times> patternConfig \<Rightarrow> (pass \<times> seg list) option \<Rightarrow>
    (pass \<times> seg list) option" where
  "clean_rule entry g =
     (case g of
        None \<Rightarrow> None
      | Some (st, segs) \<Rightarrow>
          if regex (snd entry) (mtext st) = [] then Some (st, segs)
          else fold (clean_match (fst entry) (snd entry)) (rev (regex (snd entry) (mtext st)))
                 (Some (st\<lparr>cnt := counter_init (cnt st) (fst entry)\<rparr>, segs)))"

definition clean_pass :: "(jsstring \<times> patternConfig) list \<Rightarrow> jsstring \<Rightarrow> bool" where
  "clean_pass rules text =
     (fold clean_rule rules
        (Some (\<lparr>cnt = Map.empty, tbl = [], mtext = text, dets = []\<rparr>, [Text text])) \<noteq> None)"


text \<open>
  What the segments have to do with the state of the pass made from the text \<open>t\<close>.
\<close>

definition ghost_inv :: "jsstring \<Rightarrow> pass \<Rightarrow> seg list \<Rightarrow> bool" where
  "ghost_inv t st segs =
     (flat segs = mtext st \<and> source segs = t \<and>
      tbl st = map (\<lambda>d. (masked d, original d)) (dets st) \<and>
      set (marks segs) = set (tbl st) \<and> list_all seg_ok segs)"


section \<open>Invariants of a pass\<close>

text \<open>
  \<open>skip_inv\<close>: no recorded matched text looks masked, and every placeholder does.
  \<open>table_inv\<close>: the table maps every placeholder to the matched text recorded last
  for it.
\<close>

definition skip_inv :: "pass \<Rightarrow> bool" where
  "skip_inv st =
     (list_all (\<lambda>d. \<not> already_masked (original d) \<and> already_masked (masked d)) (dets st) \<and>
      list_all (\<lambda>e. already_masked (fst e) \<and> \<not> already_masked (snd e)) (tbl st))"

definition table_inv :: "pass \<Rightarrow> bool" where
  "table_inv st = (map_of (tbl st) = map_of (rev (map (\<lambda>d. (masked d, original d)) (dets st))))"


section \<open>Example inputs\<close>

text \<open>
  \<open>tanaka_taro_san\<close> is the name Tanaka Taro with the honorific san (six
  characters). \<open>scenario_text\<close> is the scenario of the specification, ``Tanaka Taro
  san's mail is tanaka@example.com'', and \<open>scenario_masked\<close> its masked text;
  \<open>kencho_text\<close> is the name followed by the three
  characters of ``in front of the prefectural office''; \<open>tokyo_phone_text\<close> is
  Tokyo-to (three characters), a space and the telephone number \<^verbatim>\<open>03-1234-5678\<close>.
\<close>

definition tanaka_taro_san :: jsstring where
  "tanaka_taro_san = [30000, 20013, 22826, 37070, 12373, 12435]"

definition scenario_text :: jsstring where
  "scenario_text = tanaka_taro_san @ [12398, 12513, 12540, 12523, 12399] @
     js ''tanaka@example.com'' @ [12391, 12377]"

definition scenario_masked :: jsstring where
  "scenario_masked = js ''[Person_A]'' @ [12398, 12513, 12540, 12523, 12399] @
     js ''[Email_A]'' @ [12391, 12377]"

definition kencho_text :: jsstring where
  "kencho_text = tanaka_taro_san @ [30476, 24193, 21069]"

definition tokyo_phone_text :: jsstring where
  "tokyo_phone_text = [26481, 20140, 37117, 32] @ js ''03-1234-5678''"


section \<open>Strings and the regular-expression matcher\<close>

lemma startsWith_prefix: "startsWith s p = prefix p s"
  by (auto simp: startsWith_def prefix_def) (metis append_eq_conv_conj)+

lemma endsWith_suffix: "endsWith s p = suffix p s"
proof
  assume "endsWith s p"
  then have "s = take (length s - length p) s @ p"
    by (simp add: endsWith_def) (metis append_take_drop_id)
  then show "suffix p s" by (metis suffixI)
next
  assume "suffix p s"
  then obtain zs where "s = zs @ p" by (auto simp: suffix_def)
  then show "endsWith s p" by (simp add: endsWith_def)
qed

lemma js_simps:
  "js ''['' = [91]" "js '']'' = [93]" "js ''_'' = [95]" "js ''@'' = [64]" "js ''.'' = [46]"
  "js ''0'' = [48]"
  by (simp_all add: js_def)

lemma already_masked_iff: "already_masked m = (\<exists>body. m = 91 # body @ [93])"
proof
  assume "already_masked m"
  then have p: "prefix [91] m" and s: "suffix [93] m"
    by (simp_all add: already_masked_def startsWith_prefix endsWith_suffix js_simps)
  from p obtain r where r: "m = 91 # r" by (auto simp: prefix_def)
  with s have "suffix [93] r" by (auto simp: suffix_Cons)
  then obtain body where "r = body @ [93]" by (auto simp: suffix_def)
  with r show "\<exists>body. m = 91 # body @ [93]" by blast
next
  assume "\<exists>body. m = 91 # body @ [93]"
  then obtain body where "m = 91 # body @ [93]" by blast
  then show "already_masked m"
    by (simp add: already_masked_def startsWith_prefix endsWith_suffix js_simps suffix_def)
qed

lemma already_masked_mask_label: "already_masked (mask_label lbl c)"
  unfolding already_masked_iff mask_label_def js_simps by simp

text \<open>
  The recursive test \<open>no_masked_substring\<close> says what it should: no substring of the
  text passes \<open>already_masked\<close>.
\<close>

lemma no_masked_substring_no_close: "93 \<notin> set t \<Longrightarrow> no_masked_substring t"
  by (induction t) auto

lemma no_masked_substring_split:
  "no_masked_substring t \<Longrightarrow> t = a @ 91 # b \<Longrightarrow> 93 \<notin> set b"
proof (induction a arbitrary: t)
  case Nil
  then show ?case by simp
next
  case (Cons x a)
  then obtain t' where t': "t = x # t'" "t' = a @ 91 # b" by simp
  show ?case
  proof (cases "x = 91")
    case True
    with Cons.prems(1) t' have "93 \<notin> set t'" by simp
    with t' show ?thesis by simp
  next
    case False
    with Cons.prems(1) t' have "no_masked_substring t'" by simp
    from Cons.IH[OF this t'(2)] show ?thesis .
  qed
qed

lemma no_masked_substring_iff:
  "no_masked_substring t = (\<forall>a m b. t = a @ m @ b \<longrightarrow> \<not> already_masked m)"
proof
  assume n: "no_masked_substring t"
  show "\<forall>a m b. t = a @ m @ b \<longrightarrow> \<not> already_masked m"
  proof (intro allI impI notI)
    fix a m b
    assume t: "t = a @ m @ b" and "already_masked m"
    then obtain body where "m = 91 # body @ [93]" by (auto simp: already_masked_iff)
    with t have "t = a @ 91 # (body @ 93 # b)" by simp
    from no_masked_substring_split[OF n this] show False by simp
  qed
next
  assume r: "\<forall>a m b. t = a @ m @ b \<longrightarrow> \<not> already_masked m"
  then show "no_masked_substring t"
  proof (induction t)
    case Nil
    then show ?case by simp
  next
    case (Cons c cs)
    show ?case
    proof (cases "c = 91")
      case True
      have "93 \<notin> set cs"
      proof
        assume "93 \<in> set cs"
        then obtain body b where "cs = body @ 93 # b" by (auto simp: in_set_conv_decomp)
        then have "c # cs = [] @ (91 # body @ [93]) @ b" using True by simp
        with Cons.prems have "\<not> already_masked (91 # body @ [93])" by blast
        then show False by (auto simp: already_masked_iff)
      qed
      with True show ?thesis by simp
    next
      case False
      have "\<forall>a m b. cs = a @ m @ b \<longrightarrow> \<not> already_masked m"
      proof (intro allI impI)
        fix a m b
        assume "cs = a @ m @ b"
        then have "c # cs = (c # a) @ m @ b" by simp
        with Cons.prems show "\<not> already_masked m" by blast
      qed
      with Cons.IH False show ?thesis by simp
    qed
  qed
qed

text \<open>
  The matches that \<open>RegExp_g\<close> returns are well formed, whatever the pattern: each is
  the substring of the text at its index, and they come left to right without
  overlap.
\<close>

lemma matches_from_mono: "matches_from j s ms \<Longrightarrow> i \<le> j \<Longrightarrow> matches_from i s ms"
  by (cases ms) auto

lemma matchAll_from_wf:
  "length pre = i \<Longrightarrow> matches_from i (pre @ s) (matchAll_from r i s)"
proof (induction r i s arbitrary: pre rule: matchAll_from.induct)
  case (1 r i)
  then show ?case by (simp split: option.split)
next
  case (2 r i c cs)
  show ?case
  proof (cases "rmatch r (c # cs) Some")
    case None
    from "2.IH"(1)[OF None, of "pre @ [c]"] "2.prems"
    have "matches_from (Suc i) (pre @ c # cs) (matchAll_from r (Suc i) cs)" by simp
    from matches_from_mono[OF this, of i] None show ?thesis by simp
  next
    case (Some rest)
    show ?thesis
    proof (cases "length cs < length rest")
      case True
      from "2.IH"(2)[OF Some True, of "pre @ [c]"] "2.prems" Some True show ?thesis by simp
    next
      case False
      let ?n = "Suc (length cs) - length rest"
      from False have n: "0 < ?n" "?n \<le> Suc (length cs)" by simp_all
      have len: "length (take ?n (c # cs)) = ?n" using n by simp
      have split: "take ?n (c # cs) @ drop (length cs - length rest) cs = c # cs"
      proof -
        from False have "drop (length cs - length rest) cs = drop ?n (c # cs)"
          by (simp add: Suc_diff_le)
        then show ?thesis by simp
      qed
      have "length (pre @ take ?n (c # cs)) = i + ?n" using "2.prems" len by simp
      from "2.IH"(3)[OF Some False this] split
      have rest: "matches_from (i + ?n) (pre @ c # cs)
          (matchAll_from r (i + ?n) (drop (length cs - length rest) cs))"
        by simp
      have ne: "take ?n (c # cs) \<noteq> []" using n by (cases ?n) simp_all
      have here: "take (length (take ?n (c # cs))) (drop i (pre @ c # cs)) = take ?n (c # cs)"
        using "2.prems" by (simp only: len) simp
      have bound: "i + length (take ?n (c # cs)) \<le> length (pre @ c # cs)"
        using "2.prems" n by (simp only: len) simp
      from rest ne here bound Some False show ?thesis
        by (simp only: matchAll_from.simps option.case if_False matches_from.simps len) simp
    qed
  qed
qed

lemma RegExp_g_wf: "wf_matches s (RegExp_g r s)"
  using matchAll_from_wf[of "[]" 0 s r] by (simp add: wf_matches_def RegExp_g_def)

text \<open>The continuation of the matcher is only ever called on a suffix of the input.\<close>

lemma rep_greedy_suffix:
  "rep_greedy cl mn mx s k = Some x \<Longrightarrow> \<exists>s'. suffix s' s \<and> k s' = Some x"
proof (induction s arbitrary: mn mx)
  case Nil
  then show ?case by (auto split: if_splits)
next
  case (Cons c cs)
  show ?case
  proof (cases "in_class cl c \<and> mx \<noteq> Some 0")
    case True
    show ?thesis
    proof (cases "rep_greedy cl (mn - 1) (map_option (\<lambda>m. m - 1) mx) cs k")
      case None
      with True Cons.prems show ?thesis by (auto split: if_splits)
    next
      case (Some r)
      with True Cons.prems have "r = x" by simp
      with Some Cons.IH obtain s' where "suffix s' cs" "k s' = Some x" by blast
      then show ?thesis by (auto simp: suffix_Cons)
    qed
  next
    case False
    with Cons.prems show ?thesis by (auto split: if_splits)
  qed
qed

lemma rmatch_suffix:
  "rmatch r s k = Some x \<Longrightarrow> \<exists>s'. suffix s' s \<and> k s' = Some x"
proof (induction r arbitrary: s k)
  case (Chars cl)
  then show ?case by (cases s) (auto split: if_splits simp: suffix_Cons)
next
  case (Lit w)
  then show ?case by (auto split: if_splits intro: suffix_drop)
next
  case (Seq a b)
  from Seq.prems have "rmatch a s (\<lambda>s'. rmatch b s' k) = Some x" by simp
  from Seq.IH(1)[OF this] obtain s1 where s1: "suffix s1 s" "rmatch b s1 k = Some x" by blast
  from Seq.IH(2)[OF s1(2)] obtain s2 where "suffix s2 s1" "k s2 = Some x" by blast
  with s1(1) show ?case by (blast intro: suffix_order.trans)
next
  case (Alt a b)
  then show ?case by (auto split: option.splits)
next
  case (Rep mn mx cl)
  then show ?case by (auto dest: rep_greedy_suffix)
next
  case Empty
  then show ?case by auto
qed

text \<open>A pattern that needs a code unit of \<open>C\<close> has no match in a text without one.\<close>

lemma needs_no_match:
  "needs C r \<Longrightarrow> set s \<inter> set C = {} \<Longrightarrow> rmatch r s k = None"
proof (induction r arbitrary: s k)
  case (Lit w)
  from Lit.prems(1) obtain c where c: "c \<in> set w" "c \<in> set C" by (auto simp: list_ex_iff)
  have "\<not> startsWith s w"
  proof
    assume "startsWith s w"
    then have "set w \<subseteq> set s" by (auto simp: startsWith_prefix dest: set_mono_prefix)
    with c Lit.prems(2) show False by auto
  qed
  then show ?case by simp
next
  case (Seq a b)
  show ?case
  proof (cases "needs C a")
    case True
    with Seq show ?thesis by simp
  next
    case False
    with Seq.prems have nb: "needs C b" by simp
    show ?thesis
    proof (rule ccontr)
      assume "rmatch (Seq a b) s k \<noteq> None"
      then obtain x where "rmatch a s (\<lambda>s'. rmatch b s' k) = Some x" by auto
      from rmatch_suffix[OF this] obtain s1 where s1: "suffix s1 s" "rmatch b s1 k = Some x"
        by blast
      from s1(1) Seq.prems(2) have "set s1 \<inter> set C = {}" by (auto dest: set_mono_suffix)
      from Seq.IH(2)[OF nb this] s1(2) show False by simp
    qed
  qed
next
  case (Alt a b)
  then show ?case by simp
qed simp_all

lemma matchAll_from_needs:
  "needs C r \<Longrightarrow> set s \<inter> set C = {} \<Longrightarrow> matchAll_from r i s = []"
proof (induction s arbitrary: i)
  case Nil
  then show ?case by (simp add: needs_no_match)
next
  case (Cons c cs)
  from Cons.prems have "rmatch r (c # cs) Some = None" by (rule needs_no_match)
  moreover from Cons.prems have "set cs \<inter> set C = {}" by auto
  ultimately show ?case using Cons.IH Cons.prems(1) by simp
qed

lemma RegExp_g_needs:
  "needs C r \<Longrightarrow> set s \<inter> set C = {} \<Longrightarrow> RegExp_g r s = []"
  by (simp add: RegExp_g_def matchAll_from_needs)

text \<open>
  The e-mail pattern needs \<^verbatim>\<open>@\<close>, the phone pattern \<^verbatim>\<open>0\<close>, the address pattern one of
  four characters (to, do, fu, ken) and the company pattern one of two (sha, jin).
\<close>

lemma email_no_match: "64 \<notin> set s \<Longrightarrow> RegExp_g email_regex s = []"
  by (rule RegExp_g_needs[where C = "[64]"]) (simp_all add: email_regex_def js_def)

lemma phone_no_match: "48 \<notin> set s \<Longrightarrow> RegExp_g phone_regex s = []"
  by (rule RegExp_g_needs[where C = "[48]"]) (simp_all add: phone_regex_def js_def)

lemma address_no_match:
  "37117 \<notin> set s \<Longrightarrow> 36947 \<notin> set s \<Longrightarrow> 24220 \<notin> set s \<Longrightarrow> 30476 \<notin> set s \<Longrightarrow>
   RegExp_g address_regex s = []"
  by (rule RegExp_g_needs[where C = "[37117, 36947, 24220, 30476]"])
     (simp_all add: address_regex_def)

lemma company_no_match: "31038 \<notin> set s \<Longrightarrow> 20154 \<notin> set s \<Longrightarrow> RegExp_g company_regex s = []"
  by (rule RegExp_g_needs[where C = "[31038, 20154]"]) (simp_all add: company_regex_def)

lemmas regex_defs = RegExp_g_def name_regex_def email_regex_def phone_regex_def
  address_regex_def company_regex_def kanji_def word_dot_dash_def dash_space_def
  space_class_def not_separator_def dot_def ws_ranges_def digit_ranges_def word_ranges_def
  in_class_def js_def startsWith_def


section \<open>The pattern registry\<close>

text \<open>
  The keys of \<^verbatim>\<open>this.patterns\<close> are the own properties of an object: they are pairwise
  distinct, and \<^verbatim>\<open>__proto__\<close> is never one of them.
\<close>

lemma object_set_keys_present:
  "k \<in> set (map fst ps) \<Longrightarrow> k \<noteq> js ''__proto__'' \<Longrightarrow>
   map fst (object_set ps k v) = map fst ps"
  by (induction ps) (auto simp: object_set_def)

lemma map_of_update_other:
  "x \<noteq> k \<Longrightarrow>
   map_of (map (\<lambda>(k', v'). if k' = k then (k', v) else (k', v')) ps) x = map_of ps x"
  by (induction ps) auto

lemma map_of_update_at:
  "k \<in> set (map fst ps) \<Longrightarrow>
   map_of (map (\<lambda>(k', v'). if k' = k then (k', v) else (k', v')) ps) k = Some v"
  by (induction ps) auto

lemma map_of_update_in_place:
  "k \<in> set (map fst ps) \<Longrightarrow>
   map_of (map (\<lambda>(k', v'). if k' = k then (k', v) else (k', v')) ps) = (map_of ps)(k \<mapsto> v)"
  by (rule ext) (simp add: map_of_update_other map_of_update_at)

lemma object_set_lookup_present:
  "k \<in> set (map fst ps) \<Longrightarrow> k \<noteq> js ''__proto__'' \<Longrightarrow>
   map_of (object_set ps k v) = (map_of ps)(k \<mapsto> v)"
  by (simp add: object_set_def map_of_update_in_place)

lemma set_insert_index: "set (map fst (insert_index k n v ps)) = insert k (set (map fst ps))"
proof (induction ps)
  case Nil
  then show ?case by simp
next
  case (Cons e ps)
  obtain k' v' where e: "e = (k', v')" by (cases e)
  show ?case
  proof (cases "array_index k'")
    case None
    with e show ?thesis by simp
  next
    case (Some n')
    show ?thesis
    proof (cases "n' < n")
      case True
      with Some e have "set (map fst (insert_index k n v (e # ps))) =
          insert k' (set (map fst (insert_index k n v ps)))" by simp
      also have "\<dots> = insert k' (insert k (set (map fst ps)))" by (simp only: Cons.IH)
      finally show ?thesis using e by (simp add: insert_commute)
    next
      case False
      with Some e show ?thesis by simp
    qed
  qed
qed

lemma distinct_insert_index:
  "distinct (map fst ps) \<Longrightarrow> k \<notin> set (map fst ps) \<Longrightarrow> distinct (map fst (insert_index k n v ps))"
proof (induction ps)
  case Nil
  then show ?case by simp
next
  case (Cons e ps)
  obtain k' v' where e: "e = (k', v')" by (cases e)
  from Cons.prems e have d: "distinct (map fst ps)" "k \<notin> set (map fst ps)" "k' \<noteq> k"
    "k' \<notin> set (map fst ps)" by auto
  from Cons.IH[OF d(1,2)] have "distinct (map fst (insert_index k n v ps))" .
  moreover have "k' \<notin> set (map fst (insert_index k n v ps))"
    using d(3,4) by (simp only: set_insert_index) simp
  ultimately show ?case using e d Cons.prems by (auto split: option.splits)
qed

lemma object_set_keys:
  "set (map fst (object_set ps k v)) \<subseteq> insert k (set (map fst ps))"
proof (cases "k = js ''__proto__''")
  case True
  then show ?thesis by (auto simp: object_set_def)
next
  case np: False
  show ?thesis
  proof (cases "k \<in> set (map fst ps)")
    case True
    with np have "map fst (object_set ps k v) = map fst ps" by (simp add: object_set_keys_present)
    then show ?thesis by auto
  next
    case False
    show ?thesis
    proof (cases "array_index k")
      case None
      with np False show ?thesis by (auto simp: object_set_def)
    next
      case (Some n)
      with np False have "object_set ps k v = insert_index k n v ps" by (simp add: object_set_def)
      then show ?thesis by (simp only: set_insert_index)
    qed
  qed
qed

lemma object_set_distinct:
  assumes "distinct (map fst ps)"
  shows "distinct (map fst (object_set ps k v))"
proof (cases "k = js ''__proto__''")
  case True
  with assms show ?thesis by (simp add: object_set_def)
next
  case np: False
  show ?thesis
  proof (cases "k \<in> set (map fst ps)")
    case True
    with np assms show ?thesis by (simp add: object_set_keys_present)
  next
    case False
    with np assms show ?thesis
      by (auto simp: object_set_def distinct_insert_index split: option.splits)
  qed
qed

lemma object_set_no_proto:
  "js ''__proto__'' \<notin> set (map fst ps) \<Longrightarrow> js ''__proto__'' \<notin> set (map fst (object_set ps k v))"
proof (cases "k = js ''__proto__''")
  case True
  then show "js ''__proto__'' \<notin> set (map fst ps) \<Longrightarrow> ?thesis" by (simp add: object_set_def)
next
  case False
  assume "js ''__proto__'' \<notin> set (map fst ps)"
  with False object_set_keys[of ps k v] show ?thesis by auto
qed

lemma object_delete_absent: "k \<notin> set (map fst ps) \<Longrightarrow> object_delete ps k = ps"
  by (induction ps) (auto simp: object_delete_def)

lemma object_delete_keys: "map fst (object_delete ps k) = filter (\<lambda>k'. k' \<noteq> k) (map fst ps)"
  by (induction ps) (auto simp: object_delete_def)

lemma builtin_keys:
  "map fst builtin_patterns = [js ''name'', js ''email'', js ''phone'', js ''address'', js ''company'']"
  by (simp add: builtin_patterns_def)

lemma builtin_keys_ok:
  "distinct (map fst builtin_patterns)" "js ''__proto__'' \<notin> set (map fst builtin_patterns)"
  by (simp_all add: builtin_keys js_def)

lemma patterns_new: "patterns (fst (MaskingEngine_new h)) = builtin_patterns"
  by (simp add: MaskingEngine_new_def new_Map_def)

text \<open>
  Claim C9. The keys of the registry are unique: this holds of a new engine and is
  kept by \<open>addCustomPattern\<close> and \<open>removePattern\<close>, as is the absence of the key
  \<^verbatim>\<open>__proto__\<close>. In such a registry, adding a pattern under a key that is present
  replaces the rule of that key and leaves the keys, their order and every other
  rule as they were; removing a key that is not present returns the engine
  unchanged.
\<close>

theorem registry_keys_unique:
  "(distinct (map fst (patterns (fst (MaskingEngine_new h)))) \<and>
    js ''__proto__'' \<notin> set (map fst (patterns (fst (MaskingEngine_new h))))) \<and>
   (distinct (map fst (patterns this)) \<and> js ''__proto__'' \<notin> set (map fst (patterns this)) \<longrightarrow>
      distinct (map fst (patterns (addCustomPattern this key re lbl de))) \<and>
      js ''__proto__'' \<notin> set (map fst (patterns (addCustomPattern this key re lbl de))) \<and>
      distinct (map fst (patterns (removePattern this key))) \<and>
      js ''__proto__'' \<notin> set (map fst (patterns (removePattern this key))) \<and>
      (key \<in> set (map fst (patterns this)) \<longrightarrow>
         map fst (patterns (addCustomPattern this key re lbl de)) = map fst (patterns this) \<and>
         map_of (patterns (addCustomPattern this key re lbl de)) =
           (map_of (patterns this))(key \<mapsto> \<lparr>regex = re, label = lbl, description = de\<rparr>) \<and>
         MaskingEngine.mappingTable (addCustomPattern this key re lbl de) =
           MaskingEngine.mappingTable this \<and>
         counter (addCustomPattern this key re lbl de) = counter this) \<and>
      (key \<notin> set (map fst (patterns this)) \<longrightarrow> removePattern this key = this))"
proof (intro conjI impI)
  show "distinct (map fst (patterns (fst (MaskingEngine_new h))))"
    by (simp only: patterns_new builtin_keys_ok)
  show "js ''__proto__'' \<notin> set (map fst (patterns (fst (MaskingEngine_new h))))"
    by (simp only: patterns_new builtin_keys_ok) simp
next
  assume a: "distinct (map fst (patterns this)) \<and> js ''__proto__'' \<notin> set (map fst (patterns this))"
  show "distinct (map fst (patterns (addCustomPattern this key re lbl de)))"
    using a by (simp add: addCustomPattern_def object_set_distinct)
  show "js ''__proto__'' \<notin> set (map fst (patterns (addCustomPattern this key re lbl de)))"
    using a object_set_no_proto[of "patterns this"] by (simp add: addCustomPattern_def)
  show "distinct (map fst (patterns (removePattern this key)))"
    using a by (simp add: removePattern_def object_delete_keys)
  show "js ''__proto__'' \<notin> set (map fst (patterns (removePattern this key)))"
    using a by (simp add: removePattern_def object_delete_keys)
  {
    assume k: "key \<in> set (map fst (patterns this))"
    with a have np: "key \<noteq> js ''__proto__''" by metis
    show "map fst (patterns (addCustomPattern this key re lbl de)) = map fst (patterns this)"
      using k np by (simp add: addCustomPattern_def object_set_keys_present)
    show "map_of (patterns (addCustomPattern this key re lbl de)) =
        (map_of (patterns this))(key \<mapsto> \<lparr>regex = re, label = lbl, description = de\<rparr>)"
      using k np by (simp add: addCustomPattern_def object_set_lookup_present)
    show "MaskingEngine.mappingTable (addCustomPattern this key re lbl de) =
        MaskingEngine.mappingTable this"
      by (simp add: addCustomPattern_def)
    show "counter (addCustomPattern this key re lbl de) = counter this"
      by (simp add: addCustomPattern_def)
  }
  {
    assume "key \<notin> set (map fst (patterns this))"
    then show "removePattern this key = this"
      by (simp add: removePattern_def object_delete_absent)
  }
qed

theorem registry_keys_unique_witness:
  "(distinct (map fst (patterns (fst (MaskingEngine_new [])))) \<and>
    js ''__proto__'' \<notin> set (map fst (patterns (fst (MaskingEngine_new []))))) \<and>
   js ''email'' \<in> set (map fst (patterns (fst (MaskingEngine_new [])))) \<and>
   map fst (patterns (addCustomPattern (fst (MaskingEngine_new [])) (js ''email'')
       (RegExp_g (Lit (js ''@''))) (js ''Mail'') (js ''mail''))) =
     [js ''name'', js ''email'', js ''phone'', js ''address'', js ''company''] \<and>
   map_of (patterns (addCustomPattern (fst (MaskingEngine_new [])) (js ''email'')
       (RegExp_g (Lit (js ''@''))) (js ''Mail'') (js ''mail''))) =
     (map_of (patterns (fst (MaskingEngine_new []))))(js ''email'' \<mapsto>
        \<lparr>regex = RegExp_g (Lit (js ''@'')), label = js ''Mail'', description = js ''mail''\<rparr>) \<and>
   js ''order_id'' \<notin> set (map fst (patterns (fst (MaskingEngine_new [])))) \<and>
   removePattern (fst (MaskingEngine_new [])) (js ''order_id'') = fst (MaskingEngine_new [])"
proof -
  have keys: "map fst (patterns (fst (MaskingEngine_new []))) =
      [js ''name'', js ''email'', js ''phone'', js ''address'', js ''company'']"
    by (simp only: patterns_new builtin_keys)
  have ok: "distinct (map fst (patterns (fst (MaskingEngine_new [])))) \<and>
      js ''__proto__'' \<notin> set (map fst (patterns (fst (MaskingEngine_new []))))"
    by (simp add: keys js_def)
  have present: "js ''email'' \<in> set (map fst (patterns (fst (MaskingEngine_new []))))"
    by (simp add: keys)
  have absent: "js ''order_id'' \<notin> set (map fst (patterns (fst (MaskingEngine_new []))))"
    by (simp add: keys js_def)
  show ?thesis
    using registry_keys_unique[of "[]" "fst (MaskingEngine_new [])" "js ''email''"
        "RegExp_g (Lit (js ''@''))" "js ''Mail''" "js ''mail''"]
      registry_keys_unique[of "[]" "fst (MaskingEngine_new [])" "js ''order_id''"
        "RegExp_g (Lit (js ''@''))" "js ''Mail''" "js ''mail''"]
      ok present absent keys
    by simp
qed


section \<open>One pass of \<open>mask\<close>\<close>

lemma mask_match_skip: "already_masked (snd m) \<Longrightarrow> mask_match k cfg m st = st"
  by (simp add: mask_match_def)

lemma mask_match_replace:
  "\<not> already_masked (snd m) \<Longrightarrow>
   mask_match k cfg m st =
     \<lparr>cnt = counter_incr (cnt st) k,
      tbl = Map_set (tbl st) (next_label k cfg st) (snd m),
      mtext = take (fst m) (mtext st) @ next_label k cfg st @ drop (fst m + length (snd m)) (mtext st),
      dets = dets st @
        [\<lparr>type = k, description = patternConfig.description cfg, original = snd m,
          masked = next_label k cfg st, startIndex = fst m,
          endIndex = fst m + length (snd m)\<rparr>]\<rparr>"
  by (simp add: mask_match_def next_label_def Let_def)

lemma already_masked_next_label: "already_masked (next_label k cfg st)"
  by (simp add: next_label_def already_masked_mask_label)

lemma fold_invariant:
  "(\<And>x s. x \<in> set xs \<Longrightarrow> P s \<Longrightarrow> P (f x s)) \<Longrightarrow> P s \<Longrightarrow> P (fold f xs s)"
  by (induction xs arbitrary: s) auto

text \<open>
  A property of the table and the detections that every replacement keeps is kept
  by the whole pass.
\<close>

lemma mask_rule_invariant:
  assumes step: "\<And>k cfg m st. P st \<Longrightarrow> P (mask_match k cfg m st)"
    and upd: "\<And>st c. P st \<Longrightarrow> P (st\<lparr>cnt := c\<rparr>)"
    and "P st"
  shows "P (mask_rule e st)"
proof (cases "regex (snd e) (mtext st) = []")
  case True
  with assms(3) show ?thesis by (simp add: mask_rule_def)
next
  case False
  have "P (fold (mask_match (fst e) (snd e)) (rev (regex (snd e) (mtext st)))
          (st\<lparr>cnt := counter_init (cnt st) (fst e)\<rparr>))"
    by (rule fold_invariant) (auto intro: step upd assms(3))
  with False show ?thesis by (simp add: mask_rule_def Let_def)
qed

lemma mask_pass_invariant:
  assumes step: "\<And>k cfg m st. P st \<Longrightarrow> P (mask_match k cfg m st)"
    and upd: "\<And>st c. P st \<Longrightarrow> P (st\<lparr>cnt := c\<rparr>)"
    and init: "P \<lparr>cnt = Map.empty, tbl = [], mtext = t, dets = []\<rparr>"
  shows "P (mask_pass rules t)"
  unfolding mask_pass_def
  by (rule fold_invariant) (auto intro: mask_rule_invariant step upd init)

lemma set_Map_set: "set (Map_set m k v) \<subseteq> insert (k, v) (set m)"
  by (auto simp: Map_set_def split: if_splits)

lemma map_of_Map_set: "map_of (Map_set m k v) = (map_of m)(k \<mapsto> v)"
proof (cases "k \<in> set (map fst m)")
  case True
  then show ?thesis by (simp add: Map_set_def map_of_update_in_place)
next
  case False
  then have "map_of m k = None" by (simp add: map_of_eq_None_iff)
  then show ?thesis using False
    by (auto simp: Map_set_def fun_eq_iff map_add_def split: option.splits)
qed

text \<open>Matched texts that look masked are never recorded; every key of the table looks masked.\<close>

lemma skip_inv_pass: "skip_inv (mask_pass rules t)"
proof (rule mask_pass_invariant)
  fix k cfg m st
  assume inv: "skip_inv st"
  show "skip_inv (mask_match k cfg m st)"
  proof (cases "already_masked (snd m)")
    case True
    with inv show ?thesis by (simp add: mask_match_skip)
  next
    case False
    have "\<forall>e\<in>set (Map_set (tbl st) (next_label k cfg st) (snd m)).
        already_masked (fst e) \<and> \<not> already_masked (snd e)"
      using set_Map_set[of "tbl st" "next_label k cfg st" "snd m"] inv False
      by (auto simp: skip_inv_def list_all_iff already_masked_next_label)
    with inv False show ?thesis
      by (simp add: mask_match_replace skip_inv_def list_all_iff already_masked_next_label)
  qed
qed (simp_all add: skip_inv_def)

text \<open>The table maps every placeholder to the matched text recorded last for it.\<close>

lemma table_inv_pass: "table_inv (mask_pass rules t)"
proof (rule mask_pass_invariant)
  fix k cfg m st
  assume inv: "table_inv st"
  show "table_inv (mask_match k cfg m st)"
  proof (cases "already_masked (snd m)")
    case True
    with inv show ?thesis by (simp add: mask_match_skip)
  next
    case False
    with inv show ?thesis
      by (simp add: mask_match_replace table_inv_def map_of_Map_set)
  qed
qed (simp_all add: table_inv_def)

lemma table_inv_lookup:
  assumes "table_inv st" and "d \<in> set (dets st)"
  shows "masked d \<in> fst ` set (tbl st)"
    and "distinct (map masked (dets st)) \<Longrightarrow> map_of (tbl st) (masked d) = Some (original d)"
proof -
  let ?ps = "rev (map (\<lambda>d. (masked d, original d)) (dets st))"
  from assms(2) have in_ps: "(masked d, original d) \<in> set ?ps" by auto
  then have "masked d \<in> fst ` set ?ps" by force
  then have "map_of ?ps (masked d) \<noteq> None" by (simp add: map_of_eq_None_iff)
  with assms(1) have "map_of (tbl st) (masked d) \<noteq> None" by (simp add: table_inv_def)
  then show "masked d \<in> fst ` set (tbl st)" by (simp add: map_of_eq_None_iff)
  assume "distinct (map masked (dets st))"
  then have "distinct (map fst ?ps)" by (simp add: rev_map[symmetric] comp_def)
  with in_ps have "map_of ?ps (masked d) = Some (original d)" by (metis map_of_is_SomeI)
  with assms(1) show "map_of (tbl st) (masked d) = Some (original d)" by (simp add: table_inv_def)
qed

text \<open>A rule without a match leaves the state as it is.\<close>

lemma mask_rule_no_match: "regex cfg (mtext st) = [] \<Longrightarrow> mask_rule (k, cfg) st = st"
  by (simp add: mask_rule_def)

lemma mask_rule_matches:
  "regex cfg (mtext st) = m # ms \<Longrightarrow>
   mask_rule (k, cfg) st =
     fold (mask_match k cfg) (rev (m # ms)) (st\<lparr>cnt := counter_init (cnt st) k\<rparr>)"
  by (simp add: mask_rule_def)

lemma mask_pass_no_match:
  assumes "\<forall>e\<in>set rules. regex (snd e) t = []"
  shows "mask_pass rules t = \<lparr>cnt = Map.empty, tbl = [], mtext = t, dets = []\<rparr>"
proof -
  have "\<And>s. mtext s = t \<Longrightarrow> fold mask_rule rules s = s"
    using assms
  proof (induction rules)
    case Nil
    then show ?case by simp
  next
    case (Cons e rules)
    from Cons.prems have "mask_rule e s = s" by (cases e) (simp add: mask_rule_no_match)
    with Cons show ?case by simp
  qed
  then show ?thesis by (simp add: mask_pass_def)
qed


section \<open>\<open>mask\<close> and the store\<close>

lemma mask_empty:
  "mask h this [] en = (\<lparr>maskedText = [], detections = [], mappingTable = length h\<rparr>, this, h @ [[]])"
  by (simp add: mask_def new_Map_def)

lemma mask_nonempty:
  "t \<noteq> [] \<Longrightarrow>
   mask h this t en =
     (\<lparr>maskedText = mtext (mask_pass (patternsToUse this en) t),
       detections = rev (dets (mask_pass (patternsToUse this en) t)),
       mappingTable = Suc (length h)\<rparr>,
      this\<lparr>MaskingEngine.mappingTable := length h,
           counter := cnt (mask_pass (patternsToUse this en) t)\<rparr>,
      h @ [tbl (mask_pass (patternsToUse this en) t), tbl (mask_pass (patternsToUse this en) t)])"
  by (simp add: mask_def new_Map_def Map_entries_def Let_def)

lemma Map_entries_new: "Map_entries (h @ [a, b]) (Suc (length h)) = b"
  "Map_entries (h @ [a]) (length h) = a"
  "i < length h \<Longrightarrow> Map_entries (h @ xs) i = Map_entries h i"
  by (simp_all add: Map_entries_def nth_append)

lemma mask_cases:
  obtains (empty) "t = []"
      "mask h this t en = (\<lparr>maskedText = [], detections = [], mappingTable = length h\<rparr>, this, h @ [[]])"
  | (pass) st where "t \<noteq> []" "st = mask_pass (patternsToUse this en) t"
      "mask h this t en =
         (\<lparr>maskedText = mtext st, detections = rev (dets st), mappingTable = Suc (length h)\<rparr>,
          this\<lparr>MaskingEngine.mappingTable := length h, counter := cnt st\<rparr>,
          h @ [tbl st, tbl st])"
  by (cases "t = []") (auto simp: mask_empty mask_nonempty)


section \<open>The pass on the example inputs\<close>

lemmas pass_defs = mask_match_def already_masked_def mask_label_def fromCharCode_def js_plus_def
  counter_init_def counter_incr_def counter_read_def counter_truthy_def Object_prototype_keys_def
  Map_set_def Let_def js_def startsWith_def endsWith_def

lemma name_scenario: "RegExp_g name_regex scenario_text = [(0, tanaka_taro_san)]"
  by (simp add: regex_defs scenario_text_def tanaka_taro_san_def)

lemma email_scenario:
  "RegExp_g email_regex (js ''[Person_A]'' @ drop 6 scenario_text) = [(15, js ''tanaka@example.com'')]"
  by (simp add: regex_defs scenario_text_def tanaka_taro_san_def)

text \<open>
  The scenario of the specification with the built-in rules: the name is replaced
  first, the address second; the name's detection is pushed first.
\<close>

lemma scenario_pass:
  "mask_pass builtin_patterns scenario_text =
     \<lparr>cnt = [js ''name'' \<mapsto> Num 1, js ''email'' \<mapsto> Num 1],
      tbl = [(js ''[Person_A]'', tanaka_taro_san), (js ''[Email_A]'', js ''tanaka@example.com'')],
      mtext = scenario_masked,
      dets =
        [\<lparr>type = js ''name'', description = [27663, 21517], original = tanaka_taro_san,
          masked = js ''[Person_A]'', startIndex = 0, endIndex = 6\<rparr>,
         \<lparr>type = js ''email'', description = [12513, 12540, 12523, 12450, 12489, 12524, 12473],
          original = js ''tanaka@example.com'', masked = js ''[Email_A]'',
          startIndex = 15, endIndex = 33\<rparr>]\<rparr>"
  apply (simp add: mask_pass_def builtin_patterns_def)
  apply (simp add: mask_rule_matches[OF trans[OF _ name_scenario]] pass_defs
      scenario_text_def tanaka_taro_san_def)
  apply (simp add: mask_rule_matches[OF trans[OF _ email_scenario]] pass_defs
      scenario_text_def tanaka_taro_san_def)
  apply (simp add: mask_rule_no_match phone_no_match address_no_match company_no_match
      scenario_masked_def js_def)
  done


lemma name_kencho: "RegExp_g name_regex kencho_text = [(0, tanaka_taro_san)]"
  by (simp add: regex_defs kencho_text_def tanaka_taro_san_def)

lemma address_kencho:
  "RegExp_g address_regex (js ''[Person_A]'' @ drop 6 kencho_text) =
     [(7, js ''_A]'' @ drop 6 kencho_text)]"
  by (simp add: regex_defs kencho_text_def tanaka_taro_san_def)

text \<open>
  The name followed by ``in front of the prefectural office'': the address pattern
  matches the end of the placeholder of the name together with the three
  characters behind it.
\<close>

lemma kencho_pass:
  "mask_pass builtin_patterns kencho_text =
     \<lparr>cnt = [js ''name'' \<mapsto> Num 1, js ''address'' \<mapsto> Num 1],
      tbl = [(js ''[Person_A]'', tanaka_taro_san),
             (js ''[Location_A]'', js ''_A]'' @ [30476, 24193, 21069])],
      mtext = js ''[Person[Location_A]'',
      dets =
        [\<lparr>type = js ''name'', description = [27663, 21517], original = tanaka_taro_san,
          masked = js ''[Person_A]'', startIndex = 0, endIndex = 6\<rparr>,
         \<lparr>type = js ''address'', description = [20303, 25152],
          original = js ''_A]'' @ [30476, 24193, 21069], masked = js ''[Location_A]'',
          startIndex = 7, endIndex = 13\<rparr>]\<rparr>"
  apply (simp add: mask_pass_def builtin_patterns_def)
  apply (simp add: mask_rule_matches[OF trans[OF _ name_kencho]] pass_defs
      kencho_text_def tanaka_taro_san_def)
  apply (simp add: mask_rule_no_match email_no_match phone_no_match)
  apply (simp add: mask_rule_matches[OF trans[OF _ address_kencho]] pass_defs
      kencho_text_def tanaka_taro_san_def)
  apply (simp add: mask_rule_no_match company_no_match)
  done

lemma name_tokyo: "RegExp_g name_regex tokyo_phone_text = []"
  by (simp add: regex_defs tokyo_phone_text_def)

lemma email_tokyo: "RegExp_g email_regex tokyo_phone_text = []"
  by (rule email_no_match) (simp add: tokyo_phone_text_def js_def)

lemma phone_tokyo: "RegExp_g phone_regex tokyo_phone_text = [(4, js ''03-1234-5678'')]"
  by (simp add: regex_defs tokyo_phone_text_def)

lemma address_tokyo:
  "RegExp_g address_regex ([26481, 20140, 37117, 32] @ js ''[Phone_A]'') =
     [(0, [26481, 20140, 37117, 32] @ js ''[Phone_A]'')]"
  by (simp add: regex_defs)

text \<open>
  An address before a telephone number: the number is replaced first, and the
  address pattern then matches Tokyo-to, the space and the whole placeholder of the
  number. The match starts with the first character of Tokyo-to, not with \<^verbatim>\<open>[\<close>, so
  the test \<open>already_masked\<close> lets it through.
\<close>

lemma tokyo_pass:
  "mask_pass builtin_patterns tokyo_phone_text =
     \<lparr>cnt = [js ''phone'' \<mapsto> Num 1, js ''address'' \<mapsto> Num 1],
      tbl = [(js ''[Phone_A]'', js ''03-1234-5678''),
             (js ''[Location_A]'', [26481, 20140, 37117, 32] @ js ''[Phone_A]'')],
      mtext = js ''[Location_A]'',
      dets =
        [\<lparr>type = js ''phone'', description = [38651, 35441, 30058, 21495],
          original = js ''03-1234-5678'', masked = js ''[Phone_A]'', startIndex = 4, endIndex = 16\<rparr>,
         \<lparr>type = js ''address'', description = [20303, 25152],
          original = [26481, 20140, 37117, 32] @ js ''[Phone_A]'', masked = js ''[Location_A]'',
          startIndex = 0, endIndex = 13\<rparr>]\<rparr>"
  apply (simp add: mask_pass_def builtin_patterns_def)
  apply (simp add: mask_rule_no_match name_tokyo email_tokyo)
  apply (simp add: mask_rule_matches[OF trans[OF _ phone_tokyo]] pass_defs tokyo_phone_text_def)
  apply (simp add: mask_rule_matches[OF trans[OF _ address_tokyo]] pass_defs)
  apply (simp add: mask_rule_no_match company_no_match)
  done

text \<open>A single space: no built-in pattern matches.\<close>

lemma name_space: "RegExp_g name_regex [32] = []"
  by (simp add: regex_defs)

lemma space_pass:
  "mask_pass builtin_patterns (js '' '') = \<lparr>cnt = Map.empty, tbl = [], mtext = js '' '', dets = []\<rparr>"
  by (rule mask_pass_no_match)
     (simp add: builtin_patterns_def name_space email_no_match phone_no_match address_no_match
        company_no_match js_def)


section \<open>Claims about a single call of \<open>mask\<close>\<close>

lemma mask_new_scenario:
  "mask (snd (MaskingEngine_new [])) (fst (MaskingEngine_new [])) scenario_text None =
     (\<lparr>maskedText = mtext (mask_pass builtin_patterns scenario_text),
       detections = rev (dets (mask_pass builtin_patterns scenario_text)),
       mappingTable = 2\<rparr>,
      \<lparr>patterns = builtin_patterns, mappingTable = 1,
       counter = cnt (mask_pass builtin_patterns scenario_text)\<rparr>,
      [[], tbl (mask_pass builtin_patterns scenario_text),
       tbl (mask_pass builtin_patterns scenario_text)])"
proof -
  have "scenario_text \<noteq> []" by (simp add: scenario_text_def tanaka_taro_san_def)
  then show ?thesis
    by (simp add: mask_nonempty MaskingEngine_new_def new_Map_def patternsToUse_def)
qed

text \<open>
  Claim C4, at the scenario of the specification with the built-in rules
  (\<^verbatim>\<open>new MaskingEngine().mask(text)\<close>): the returned detections are the e-mail address,
  found at index 15, and then the name, found at index 0. The list is not ordered by
  start offset; it is the reverse of the order of replacement, and the rules are
  processed one after the other.
\<close>

theorem detections_not_in_text_order:
  "(case mask (snd (MaskingEngine_new [])) (fst (MaskingEngine_new [])) scenario_text None of
      (r, this', h') \<Rightarrow> (map type (detections r), map startIndex (detections r))) =
   ([js ''email'', js ''name''], [15, 0])"
  by (simp add: mask_new_scenario scenario_pass)

text \<open>
  Claim C5 as stated fails for a text of white space: \<open>mask\<close> tests \<^verbatim>\<open>!text\<close>, which
  holds of the empty string only, and a single space comes back as it is.
\<close>

theorem whitespace_not_emptied:
  "(case mask (snd (MaskingEngine_new [])) (fst (MaskingEngine_new [])) (js '' '') None of
      (r, this', h') \<Rightarrow> maskedText r) = js '' '' \<and>
   (case mask (snd (MaskingEngine_new [])) (fst (MaskingEngine_new [])) (js '' '') None of
      (r, this', h') \<Rightarrow> maskedText r) \<noteq> []"
proof -
  have "js '' '' \<noteq> []" by (simp add: js_def)
  then show ?thesis
    by (simp add: mask_nonempty MaskingEngine_new_def new_Map_def patternsToUse_def space_pass)
qed

text \<open>
  Claim C5, amended. For the empty text \<open>mask\<close> returns the empty masked text, no
  detections and an empty mapping table, and leaves the engine as it is. A text
  that no active rule matches (a text of white space and the built-in rules, for
  one) comes back unchanged, with no detections and an empty mapping table. \<open>mask\<close>
  is a total function: it returns in every case.
\<close>

theorem mask_empty_or_unmatched:
  "(case mask h this [] en of
      (r, this', h') \<Rightarrow>
        maskedText r = [] \<and> detections r = [] \<and> Map_entries h' (mappingTable r) = [] \<and>
        this' = this) \<and>
   ((\<forall>e\<in>set (patternsToUse this en). regex (snd e) t = []) \<longrightarrow>
      (case mask h this t en of
         (r, this', h') \<Rightarrow>
           maskedText r = t \<and> detections r = [] \<and> Map_entries h' (mappingTable r) = []))"
proof (intro conjI impI)
  show "case mask h this [] en of
      (r, this', h') \<Rightarrow>
        maskedText r = [] \<and> detections r = [] \<and> Map_entries h' (mappingTable r) = [] \<and>
        this' = this"
    by (simp add: mask_empty Map_entries_new)
next
  assume none: "\<forall>e\<in>set (patternsToUse this en). regex (snd e) t = []"
  show "case mask h this t en of
      (r, this', h') \<Rightarrow>
        maskedText r = t \<and> detections r = [] \<and> Map_entries h' (mappingTable r) = []"
  proof (cases "t = []")
    case True
    then show ?thesis by (simp add: mask_empty Map_entries_new)
  next
    case False
    then show ?thesis
      by (simp add: mask_nonempty mask_pass_no_match[OF none] Map_entries_new)
  qed
qed

theorem mask_empty_or_unmatched_witness:
  "list_all (\<lambda>e. regex (snd e) (js '' '') = []) (patternsToUse (fst (MaskingEngine_new [])) None) \<and>
   (case mask (snd (MaskingEngine_new [])) (fst (MaskingEngine_new [])) (js '' '') None of
      (r, this', h') \<Rightarrow>
        maskedText r = js '' '' \<and> detections r = [] \<and> Map_entries h' (mappingTable r) = [])"
proof -
  have none: "\<forall>e\<in>set (patternsToUse (fst (MaskingEngine_new [])) None). regex (snd e) (js '' '') = []"
    by (simp add: patternsToUse_def patterns_new builtin_patterns_def name_space email_no_match
        phone_no_match address_no_match company_no_match js_def)
  from mask_empty_or_unmatched[where h = "snd (MaskingEngine_new [])"
      and this = "fst (MaskingEngine_new [])" and en = None and t = "js '' ''"] none
  show ?thesis by (simp add: list_all_iff)
qed

text \<open>
  Claim C8. The result of \<open>mask\<close> depends on the text, the registry and the enabled
  keys only: two engines with the same registry, whatever their counters, their
  mapping tables and the store, return the same masked text, the same detections
  in the same order and the same entries of the mapping table, and \<open>mask\<close> does not
  change the registry.
\<close>

theorem mask_deterministic:
  "patterns this1 = patterns this2 \<Longrightarrow>
   (case mask h1 this1 t en of
      (r1, this1', h1') \<Rightarrow>
        case mask h2 this2 t en of
          (r2, this2', h2') \<Rightarrow>
            maskedText r1 = maskedText r2 \<and> detections r1 = detections r2 \<and>
            Map_entries h1' (mappingTable r1) = Map_entries h2' (mappingTable r2) \<and>
            patterns this1' = patterns this1 \<and> patterns this2' = patterns this2)"
proof (cases "t = []")
  case True
  then show ?thesis by (simp add: mask_empty Map_entries_new)
next
  case False
  assume "patterns this1 = patterns this2"
  then have "patternsToUse this1 en = patternsToUse this2 en"
    by (cases en) (simp_all add: patternsToUse_def)
  with False show ?thesis by (simp add: mask_nonempty Map_entries_new)
qed

text \<open>
  The witness: a new engine, and the same engine after it has masked the scenario
  text (its counter and its table are no longer empty), both given \<open>kencho_text\<close>.
\<close>

theorem mask_deterministic_witness:
  "patterns (fst (MaskingEngine_new [])) =
     patterns (fst (snd (mask (snd (MaskingEngine_new [])) (fst (MaskingEngine_new []))
        scenario_text None))) \<and>
   counter (fst (MaskingEngine_new [])) \<noteq>
     counter (fst (snd (mask (snd (MaskingEngine_new [])) (fst (MaskingEngine_new []))
        scenario_text None))) \<and>
   (case mask (snd (MaskingEngine_new [])) (fst (MaskingEngine_new [])) kencho_text None of
      (r1, this1', h1') \<Rightarrow>
        case mask (snd (snd (mask (snd (MaskingEngine_new [])) (fst (MaskingEngine_new []))
                 scenario_text None)))
               (fst (snd (mask (snd (MaskingEngine_new [])) (fst (MaskingEngine_new []))
                 scenario_text None))) kencho_text None of
          (r2, this2', h2') \<Rightarrow>
            maskedText r1 = maskedText r2 \<and> detections r1 = detections r2 \<and>
            Map_entries h1' (mappingTable r1) = Map_entries h2' (mappingTable r2))"
proof -
  have same: "patterns (fst (MaskingEngine_new [])) =
     patterns (fst (snd (mask (snd (MaskingEngine_new [])) (fst (MaskingEngine_new []))
        scenario_text None)))"
    by (simp add: mask_new_scenario patterns_new)
  have "counter (fst (snd (mask (snd (MaskingEngine_new [])) (fst (MaskingEngine_new []))
        scenario_text None))) (js ''name'') = Some (Num 1)"
    by (simp add: mask_new_scenario scenario_pass js_def)
  moreover have "counter (fst (MaskingEngine_new [])) (js ''name'') = None"
    by (simp add: MaskingEngine_new_def new_Map_def)
  ultimately have differ: "counter (fst (MaskingEngine_new [])) \<noteq>
     counter (fst (snd (mask (snd (MaskingEngine_new [])) (fst (MaskingEngine_new []))
        scenario_text None)))"
    by (metis option.distinct(1))
  from mask_deterministic[OF same, where ?h1.0 = "snd (MaskingEngine_new [])"
      and t = kencho_text and en = None
      and ?h2.0 = "snd (snd (mask (snd (MaskingEngine_new [])) (fst (MaskingEngine_new []))
                 scenario_text None))"]
  show ?thesis using same differ by (simp add: case_prod_unfold)
qed


lemma mask_skip_inv:
  "case mask h this t en of
     (r, this', h') \<Rightarrow>
       (\<forall>d\<in>set (detections r). \<not> already_masked (original d)) \<and>
       (\<forall>e\<in>set (Map_entries h' (mappingTable r)). already_masked (fst e) \<and> \<not> already_masked (snd e))"
proof (cases "t = []")
  case True
  then show ?thesis by (simp add: mask_empty Map_entries_new)
next
  case False
  with skip_inv_pass[of "patternsToUse this en" t] show ?thesis
    by (simp add: mask_nonempty Map_entries_new skip_inv_def list_all_iff)
qed

text \<open>
  Claim C2. A match whose text starts with \<^verbatim>\<open>[\<close> and ends with \<^verbatim>\<open>]\<close> leaves the state
  of the pass as it is: no detection, no table entry, no counter step, no change of
  the text. Hence no detection of any call records such a text, the table never
  holds one as a value, and every key of the table is one; and when \<open>mask\<close> runs
  again on the masked text it has returned, with the same engine and the same
  enabled keys, no detection of the second call is for a text that is a placeholder
  of the first.
\<close>

theorem no_double_masking:
  "(already_masked (snd m) \<longrightarrow> mask_match k cfg m st = st) \<and>
   (case mask h this t en of
      (r, this', h') \<Rightarrow>
        (\<forall>d\<in>set (detections r). \<not> already_masked (original d)) \<and>
        (\<forall>e\<in>set (Map_entries h' (mappingTable r)).
            already_masked (fst e) \<and> \<not> already_masked (snd e)) \<and>
        (case mask h' this' (maskedText r) en of
           (r2, this2, h2) \<Rightarrow>
             \<forall>d\<in>set (detections r2).
               \<not> already_masked (original d) \<and>
               original d \<notin> fst ` set (Map_entries h' (mappingTable r))))"
proof -
  obtain r this' h' where first: "mask h this t en = (r, this', h')" by (cases "mask h this t en")
  obtain r2 this2 h2 where second: "mask h' this' (maskedText r) en = (r2, this2, h2)"
    by (cases "mask h' this' (maskedText r) en")
  from mask_skip_inv[of h this t en] first
  have one: "\<forall>d\<in>set (detections r). \<not> already_masked (original d)"
    and keys: "\<forall>e\<in>set (Map_entries h' (mappingTable r)). already_masked (fst e) \<and> \<not> already_masked (snd e)"
    by simp_all
  from mask_skip_inv[of h' this' "maskedText r" en] second
  have two: "\<forall>d\<in>set (detections r2). \<not> already_masked (original d)" by simp
  have "\<forall>d\<in>set (detections r2). original d \<notin> fst ` set (Map_entries h' (mappingTable r))"
  proof (intro ballI notI)
    fix d
    assume d: "d \<in> set (detections r2)"
      and "original d \<in> fst ` set (Map_entries h' (mappingTable r))"
    then obtain e where "e \<in> set (Map_entries h' (mappingTable r))" "fst e = original d"
      by auto
    with keys have "already_masked (original d)" by metis
    with two d show False by blast
  qed
  with one keys two first second show ?thesis by (simp add: mask_match_skip)
qed

lemma name_masked_scenario: "RegExp_g name_regex scenario_masked = []"
  by (simp add: regex_defs scenario_masked_def)

lemma masked_scenario_pass:
  "mask_pass builtin_patterns scenario_masked =
     \<lparr>cnt = Map.empty, tbl = [], mtext = scenario_masked, dets = []\<rparr>"
proof -
  have chars: "64 \<notin> set scenario_masked" "48 \<notin> set scenario_masked"
    "37117 \<notin> set scenario_masked" "36947 \<notin> set scenario_masked"
    "24220 \<notin> set scenario_masked" "30476 \<notin> set scenario_masked"
    "31038 \<notin> set scenario_masked" "20154 \<notin> set scenario_masked"
    by (simp_all add: scenario_masked_def js_def)
  show ?thesis
    by (rule mask_pass_no_match)
       (simp add: builtin_patterns_def name_masked_scenario email_no_match phone_no_match
          address_no_match company_no_match chars)
qed

text \<open>
  The witness: a match on the text \<^verbatim>\<open>[Person_A]\<close> is skipped; the scenario with the
  built-in rules gives two detections, and masking its masked text again gives
  none.
\<close>

theorem no_double_masking_witness:
  "already_masked (snd (0, js ''[Person_A]'')) \<and>
   mask_match (js ''name'') \<lparr>regex = RegExp_g name_regex, label = js ''Person'', description = []\<rparr>
       (0, js ''[Person_A]'') \<lparr>cnt = Map.empty, tbl = [], mtext = js ''[Person_A]'', dets = []\<rparr> =
     \<lparr>cnt = Map.empty, tbl = [], mtext = js ''[Person_A]'', dets = []\<rparr> \<and>
   (case mask (snd (MaskingEngine_new [])) (fst (MaskingEngine_new [])) scenario_text None of
      (r, this', h') \<Rightarrow>
        length (detections r) = 2 \<and>
        list_all (\<lambda>d. \<not> already_masked (original d)) (detections r) \<and>
        list_all (\<lambda>e. already_masked (fst e) \<and> \<not> already_masked (snd e))
          (Map_entries h' (mappingTable r)) \<and>
        (case mask h' this' (maskedText r) None of (r2, this2, h2) \<Rightarrow> detections r2 = []))"
proof -
  have skip: "already_masked (snd (0::nat, js ''[Person_A]''))"
    by (simp add: already_masked_def startsWith_def endsWith_def js_def)
  have masked_ne: "scenario_masked \<noteq> []"
    by (simp add: scenario_masked_def js_def)
  have again: "case mask (snd (MaskingEngine_new [])) (fst (MaskingEngine_new [])) scenario_text None of
      (r, this', h') \<Rightarrow>
        length (detections r) = 2 \<and>
        (case mask h' this' (maskedText r) None of (r2, this2, h2) \<Rightarrow> detections r2 = [])"
    by (simp add: mask_new_scenario scenario_pass mask_nonempty[OF masked_ne] patternsToUse_def
        masked_scenario_pass)
  from no_double_masking[where m = "(0, js ''[Person_A]'')" and k = "js ''name''"
      and cfg = "\<lparr>regex = RegExp_g name_regex, label = js ''Person'', description = []\<rparr>"
      and st = "\<lparr>cnt = Map.empty, tbl = [], mtext = js ''[Person_A]'', dets = []\<rparr>"
      and h = "snd (MaskingEngine_new [])" and this = "fst (MaskingEngine_new [])"
      and t = scenario_text and en = None] skip again
  show ?thesis by (simp add: case_prod_unfold list_all_iff)
qed

text \<open>
  Claim C10. Every detection of a call has its placeholder as a key of the returned
  mapping table, and when the placeholders of the detections are pairwise distinct
  the table maps each placeholder to the matched text of its detection. The
  returned table is a new object of the store: it did not exist before the call,
  it is not the engine's own table, the call changes no table that existed, and a
  later call of \<open>mask\<close> on the engine leaves its entries as they are and returns
  another object.
\<close>

theorem detections_mapping_coherent:
  "case mask h this t en of
     (r, this', h') \<Rightarrow>
       (\<forall>d\<in>set (detections r).
          masked d \<in> fst ` set (Map_entries h' (mappingTable r)) \<and>
          (distinct (map masked (detections r)) \<longrightarrow>
             map_of (Map_entries h' (mappingTable r)) (masked d) = Some (original d))) \<and>
       length h \<le> mappingTable r \<and> mappingTable r < length h' \<and>
       (t \<noteq> [] \<longrightarrow> MaskingEngine.mappingTable this' \<noteq> mappingTable r) \<and>
       (\<forall>a<length h. Map_entries h' a = Map_entries h a) \<and>
       (\<forall>t2 en2.
          case mask h' this' t2 en2 of
            (r2, this2, h2) \<Rightarrow>
              Map_entries h2 (mappingTable r) = Map_entries h' (mappingTable r) \<and>
              mappingTable r2 \<noteq> mappingTable r)"
proof (cases rule: mask_cases[where t = t and h = h and this = this and en = en])
  case empty
  have "\<And>t2 en2. case mask (h @ [[]]) this t2 en2 of
      (r2, this2, h2) \<Rightarrow> Map_entries h2 (length h) = [] \<and> mappingTable r2 \<noteq> length h"
  proof -
    fix t2 en2
    show "case mask (h @ [[]]) this t2 en2 of
      (r2, this2, h2) \<Rightarrow> Map_entries h2 (length h) = [] \<and> mappingTable r2 \<noteq> length h"
      by (cases "t2 = []") (simp_all add: mask_empty mask_nonempty Map_entries_def nth_append)
  qed
  with empty show ?thesis by (simp add: Map_entries_def nth_append)
next
  case (pass st)
  have inv: "table_inv st" unfolding pass(2) by (rule table_inv_pass)
  have coh: "\<forall>d\<in>set (dets st).
      masked d \<in> fst ` set (tbl st) \<and>
      (distinct (map masked (dets st)) \<longrightarrow> map_of (tbl st) (masked d) = Some (original d))"
    using table_inv_lookup[OF inv] by blast
  have later: "\<And>t2 en2. case mask (h @ [tbl st, tbl st])
        (this\<lparr>MaskingEngine.mappingTable := length h, counter := cnt st\<rparr>) t2 en2 of
      (r2, this2, h2) \<Rightarrow>
        Map_entries h2 (Suc (length h)) = tbl st \<and> mappingTable r2 \<noteq> Suc (length h)"
  proof -
    fix t2 en2
    show "case mask (h @ [tbl st, tbl st])
        (this\<lparr>MaskingEngine.mappingTable := length h, counter := cnt st\<rparr>) t2 en2 of
      (r2, this2, h2) \<Rightarrow>
        Map_entries h2 (Suc (length h)) = tbl st \<and> mappingTable r2 \<noteq> Suc (length h)"
      by (cases "t2 = []") (simp_all add: mask_empty mask_nonempty Map_entries_def nth_append)
  qed
  from pass(3) coh later show ?thesis
    by (simp add: Map_entries_def nth_append distinct_rev rev_map[symmetric])
qed

text \<open>
  The witness: the scenario with the built-in rules, and a second call on
  \<open>kencho_text\<close>, after which the first table still holds its two entries.
\<close>

theorem detections_mapping_coherent_witness:
  "case mask (snd (MaskingEngine_new [])) (fst (MaskingEngine_new [])) scenario_text None of
     (r, this', h') \<Rightarrow>
       length (detections r) = 2 \<and> distinct (map masked (detections r)) \<and>
       list_all (\<lambda>d. map_of (Map_entries h' (mappingTable r)) (masked d) = Some (original d))
         (detections r) \<and>
       (case mask h' this' kencho_text None of
          (r2, this2, h2) \<Rightarrow>
            Map_entries h2 (mappingTable r) =
              [(js ''[Person_A]'', tanaka_taro_san), (js ''[Email_A]'', js ''tanaka@example.com'')] \<and>
            mappingTable r2 \<noteq> mappingTable r)"
proof -
  have facts: "case mask (snd (MaskingEngine_new [])) (fst (MaskingEngine_new [])) scenario_text None of
     (r, this', h') \<Rightarrow>
       length (detections r) = 2 \<and> distinct (map masked (detections r)) \<and>
       Map_entries h' (mappingTable r) =
         [(js ''[Person_A]'', tanaka_taro_san), (js ''[Email_A]'', js ''tanaka@example.com'')]"
    by (simp add: mask_new_scenario scenario_pass Map_entries_def js_def)
  from detections_mapping_coherent[where h = "snd (MaskingEngine_new [])"
      and this = "fst (MaskingEngine_new [])" and t = scenario_text and en = None] facts
  show ?thesis
    by (auto simp: case_prod_unfold list_all_iff)
qed


section \<open>The placeholders of a pass\<close>

lemma mask_label_inject:
  "mask_label l c = mask_label l' c' \<Longrightarrow>
   l = l' \<and> fromCharCode (js_plus 64 c) = fromCharCode (js_plus 64 c')"
  by (simp add: mask_label_def js_simps)

lemma mod_window:
  fixes a b n :: nat
  assumes "a mod n = b mod n" "a \<le> b" "b - a < n"
  shows "a = b"
proof -
  from assms(1,2) have "n dvd b - a" by (metis mod_eq_dvd_iff_nat)
  with assms(3) have "b - a = 0" by (meson nat_dvd_not_less not_gr_zero)
  with assms(2) show ?thesis by simp
qed

lemma fromCharCode_inject:
  assumes "fromCharCode (js_plus 64 (Num i)) = fromCharCode (js_plus 64 (Num j))"
    and "1 \<le> i" "i \<le> 65536" "1 \<le> j" "j \<le> 65536"
  shows "i = j"
proof -
  from assms(1) have eq: "(64 + i) mod 65536 = (64 + j) mod 65536"
    by (simp add: fromCharCode_def js_plus_def)
  show ?thesis
  proof (cases "i \<le> j")
    case True
    with eq assms(2-) have "64 + i = 64 + j"
      by (intro mod_window[of "64 + i" 65536 "64 + j"]) simp_all
    then show ?thesis by simp
  next
    case False
    with eq assms(2-) have "64 + j = 64 + i"
      by (intro mod_window[of "64 + j" 65536 "64 + i"]) simp_all
    then show ?thesis by simp
  qed
qed

lemma distinct_labels_of_counters:
  assumes "n \<le> 65536"
  shows "distinct (map (\<lambda>i. mask_label l (Num i)) [1..<Suc n])"
proof -
  have "inj_on (\<lambda>i. mask_label l (Num i)) (set [1..<Suc n])"
  proof (rule inj_onI)
    fix i j
    assume "i \<in> set [1..<Suc n]" "j \<in> set [1..<Suc n]"
      and "mask_label l (Num i) = mask_label l (Num j)"
    with assms show "i = j"
      by (auto dest!: mask_label_inject intro: fromCharCode_inject)
  qed
  then show ?thesis by (simp add: distinct_map)
qed

text \<open>
  The inner loop, for a key whose counter holds the number \<open>c\<close>: the matches that
  are replaced get the placeholders of the counters \<open>c + 1\<close>, \<open>c + 2\<close>, ... in the
  order of replacement.
\<close>

lemma inner_loop:
  assumes "cnt st k = Some (Num c)"
  shows "cnt (fold (mask_match k cfg) ms st) =
           (cnt st)(k \<mapsto> Num (c + length (filter (\<lambda>m. \<not> already_masked (snd m)) ms))) \<and>
         map masked (dets (fold (mask_match k cfg) ms st)) =
           map masked (dets st) @
           map (\<lambda>i. mask_label (label cfg) (Num i))
             [Suc c..<Suc (c + length (filter (\<lambda>m. \<not> already_masked (snd m)) ms))] \<and>
         map type (dets (fold (mask_match k cfg) ms st)) =
           map type (dets st) @ replicate (length (filter (\<lambda>m. \<not> already_masked (snd m)) ms)) k"
  using assms
proof (induction ms arbitrary: st c)
  case Nil
  then show ?case by (simp add: fun_upd_idem)
next
  case (Cons m ms)
  show ?case
  proof (cases "already_masked (snd m)")
    case True
    with Cons show ?thesis by (simp add: mask_match_skip)
  next
    case False
    let ?st1 = "mask_match k cfg m st"
    from Cons.prems have c1: "cnt ?st1 k = Some (Num (Suc c))"
      and cn: "cnt ?st1 = (cnt st)(k \<mapsto> Num (Suc c))"
      and lab: "next_label k cfg st = mask_label (label cfg) (Num (Suc c))"
      by (simp_all add: mask_match_replace[OF False] counter_incr_def next_label_def counter_read_def)
    have d1: "map masked (dets ?st1) = map masked (dets st) @ [mask_label (label cfg) (Num (Suc c))]"
      and t1: "map type (dets ?st1) = map type (dets st) @ [k]"
      by (simp_all add: mask_match_replace[OF False] lab)
    let ?n = "length (filter (\<lambda>m. \<not> already_masked (snd m)) ms)"
    have len: "length (filter (\<lambda>m. \<not> already_masked (snd m)) (m # ms)) = Suc ?n"
      using False by simp
    have u: "[Suc c..<Suc (c + Suc ?n)] = Suc c # [Suc (Suc c)..<Suc (Suc c + ?n)]"
      using upt_conv_Cons[of "Suc c" "Suc (c + Suc ?n)"] by simp
    have f: "fold (mask_match k cfg) (m # ms) st = fold (mask_match k cfg) ms ?st1" by simp
    from Cons.IH[OF c1]
    have i1: "cnt (fold (mask_match k cfg) ms ?st1) = (cnt ?st1)(k \<mapsto> Num (Suc c + ?n))"
      and i2: "map masked (dets (fold (mask_match k cfg) ms ?st1)) =
          map masked (dets ?st1) @
          map (\<lambda>i. mask_label (label cfg) (Num i)) [Suc (Suc c)..<Suc (Suc c + ?n)]"
      and i3: "map type (dets (fold (mask_match k cfg) ms ?st1)) =
          map type (dets ?st1) @ replicate ?n k"
      by blast+
    have "cnt (fold (mask_match k cfg) (m # ms) st) = (cnt st)(k \<mapsto> Num (c + Suc ?n))"
      by (simp only: f i1 cn) simp
    moreover have "map masked (dets (fold (mask_match k cfg) (m # ms) st)) =
        map masked (dets st) @
        map (\<lambda>i. mask_label (label cfg) (Num i)) [Suc c..<Suc (c + Suc ?n)]"
      by (simp only: f i2 d1 u) simp
    moreover have "map type (dets (fold (mask_match k cfg) (m # ms) st)) =
        map type (dets st) @ replicate (Suc ?n) k"
      by (simp only: f i3 t1) simp
    ultimately show ?thesis by (simp only: len)
  qed
qed

text \<open>
  One rule, for a key that is no member of \<^verbatim>\<open>Object.prototype\<close> and has no counter
  yet: its \<open>n\<close> replacements get the placeholders of the counters 1 to \<open>n\<close>.
\<close>

lemma rule_placeholders:
  assumes "cnt st k = None" and "k \<notin> set Object_prototype_keys"
  shows "\<exists>n. map masked (dets (mask_rule (k, cfg) st)) =
               map masked (dets st) @ map (\<lambda>i. mask_label (label cfg) (Num i)) [1..<Suc n] \<and>
             map type (dets (mask_rule (k, cfg) st)) = map type (dets st) @ replicate n k \<and>
             (\<forall>k'. k' \<noteq> k \<longrightarrow> cnt (mask_rule (k, cfg) st) k' = cnt st k')"
proof (cases "regex cfg (mtext st) = []")
  case True
  then have "mask_rule (k, cfg) st = st" by (rule mask_rule_no_match)
  then show ?thesis by (intro exI[of _ 0]) simp
next
  case False
  let ?st0 = "st\<lparr>cnt := counter_init (cnt st) k\<rparr>"
  let ?ms = "rev (regex cfg (mtext st))"
  from assms have c0: "cnt ?st0 k = Some (Num 0)"
    by (simp add: counter_init_def counter_truthy_def)
  from False have run: "mask_rule (k, cfg) st = fold (mask_match k cfg) ?ms ?st0"
    by (simp add: mask_rule_def)
  have other: "\<forall>k'. k' \<noteq> k \<longrightarrow> cnt ?st0 k' = cnt st k'"
    by (simp add: counter_init_def)
  from inner_loop[OF c0, of cfg ?ms] run other show ?thesis
    by (intro exI[of _ "length (filter (\<lambda>m. \<not> already_masked (snd m)) ?ms)"]) simp
qed

lemma mask_match_dets_prefix: "prefix (dets st) (dets (mask_match k cfg m st))"
  by (cases "already_masked (snd m)") (simp_all add: mask_match_skip mask_match_replace)

lemma fold_dets_prefix:
  assumes "\<And>x s. prefix (dets s) (dets (f x s))"
  shows "prefix (dets s) (dets (fold f xs s))"
proof (induction xs arbitrary: s)
  case Nil
  then show ?case by simp
next
  case (Cons x xs)
  have "prefix (dets s) (dets (f x s))" by (rule assms)
  also have "prefix (dets (f x s)) (dets (fold f xs (f x s)))" by (rule Cons.IH)
  finally show ?case by simp
qed

lemma mask_rule_dets_prefix: "prefix (dets st) (dets (mask_rule e st))"
proof (cases "regex (snd e) (mtext st) = []")
  case True
  then show ?thesis by (simp add: mask_rule_def)
next
  case False
  have "prefix (dets (st\<lparr>cnt := counter_init (cnt st) (fst e)\<rparr>))
      (dets (fold (mask_match (fst e) (snd e)) (rev (regex (snd e) (mtext st)))
        (st\<lparr>cnt := counter_init (cnt st) (fst e)\<rparr>)))"
    by (rule fold_dets_prefix) (rule mask_match_dets_prefix)
  with False show ?thesis by (simp add: mask_rule_def Let_def)
qed

lemma fold_mask_rule_dets_prefix: "prefix (dets st) (dets (fold mask_rule rules st))"
  by (rule fold_dets_prefix) (rule mask_rule_dets_prefix)

lemma prefix_filter_length:
  "prefix xs ys \<Longrightarrow> length (filter P xs) \<le> length (filter P ys)"
  by (auto simp: prefix_def)

text \<open>
  The whole pass, by induction on the rules still to come: their keys have no
  counter yet, and no placeholder made so far carries one of their labels.
\<close>

lemma pass_placeholders_distinct:
  assumes "distinct (map fst rules)"
    and "distinct (map (\<lambda>e. label (snd e)) rules)"
    and "\<forall>e\<in>set rules. fst e \<notin> set Object_prototype_keys"
    and "\<forall>e\<in>set rules. cnt st (fst e) = None"
    and "\<forall>e\<in>set rules. \<forall>d\<in>set (dets st). \<forall>i. masked d \<noteq> mask_label (label (snd e)) (Num i)"
    and "distinct (map masked (dets st))"
    and "\<forall>k. length (filter (\<lambda>d. type d = k) (dets (fold mask_rule rules st))) \<le> 65536"
  shows "distinct (map masked (dets (fold mask_rule rules st)))"
  using assms
proof (induction rules arbitrary: st)
  case Nil
  then show ?case by simp
next
  case (Cons e rules)
  obtain k cfg where e: "e = (k, cfg)" by (cases e)
  let ?st1 = "mask_rule (k, cfg) st"
  from Cons.prems(3,4) e have k: "cnt st k = None" "k \<notin> set Object_prototype_keys" by auto
  from rule_placeholders[OF k, of cfg] obtain n where
    m1: "map masked (dets ?st1) =
           map masked (dets st) @ map (\<lambda>i. mask_label (label cfg) (Num i)) [1..<Suc n]"
    and t1: "map type (dets ?st1) = map type (dets st) @ replicate n k"
    and c1: "\<forall>k'. k' \<noteq> k \<longrightarrow> cnt ?st1 k' = cnt st k'"
    by blast
  from Cons.prems(7) e
  have b7: "\<forall>k. length (filter (\<lambda>d. type d = k) (dets (fold mask_rule rules ?st1))) \<le> 65536"
    by simp
  have "length (filter (\<lambda>d. type d = k) (dets ?st1)) \<le>
      length (filter (\<lambda>d. type d = k) (dets (fold mask_rule rules ?st1)))"
    by (rule prefix_filter_length) (rule fold_mask_rule_dets_prefix)
  also from b7 have "\<dots> \<le> 65536" by blast
  finally have "length (filter (\<lambda>d. type d = k) (dets ?st1)) \<le> 65536" .
  moreover have "length (filter (\<lambda>d. type d = k) (dets ?st1)) =
      length (filter (\<lambda>x. x = k) (map type (dets ?st1)))"
    by (simp add: filter_map comp_def)
  ultimately have n: "n \<le> 65536" by (simp add: t1)
  have new: "distinct (map (\<lambda>i. mask_label (label cfg) (Num i)) [1..<Suc n])"
    using n by (rule distinct_labels_of_counters)
  from Cons.prems(5) e
  have old: "\<forall>d\<in>set (dets st). \<forall>i. masked d \<noteq> mask_label (label cfg) (Num i)"
    by simp
  have apart: "set (map masked (dets st)) \<inter>
      set (map (\<lambda>i. mask_label (label cfg) (Num i)) [1..<Suc n]) = {}"
  proof (rule ccontr)
    assume "set (map masked (dets st)) \<inter>
      set (map (\<lambda>i. mask_label (label cfg) (Num i)) [1..<Suc n]) \<noteq> {}"
    then obtain p where "p \<in> set (map masked (dets st))"
      and "p \<in> set (map (\<lambda>i. mask_label (label cfg) (Num i)) [1..<Suc n])" by blast
    then obtain d i where "d \<in> set (dets st)" "masked d = p" "p = mask_label (label cfg) (Num i)"
      by (auto simp: image_iff)
    with old show False by blast
  qed
  have d1: "distinct (map masked (dets ?st1))"
    using Cons.prems(6) new apart by (simp only: m1 distinct_append)
  have keys: "\<forall>e'\<in>set rules. cnt ?st1 (fst e') = None"
  proof
    fix e'
    assume e': "e' \<in> set rules"
    with Cons.prems(1) e have "fst e' \<noteq> k" by (auto simp: image_iff)
    with c1 have "cnt ?st1 (fst e') = cnt st (fst e')" by blast
    also from Cons.prems(4) e' have "\<dots> = None" by simp
    finally show "cnt ?st1 (fst e') = None" .
  qed
  have labels: "\<forall>e'\<in>set rules. \<forall>d\<in>set (dets ?st1). \<forall>i.
      masked d \<noteq> mask_label (label (snd e')) (Num i)"
  proof (intro ballI allI notI)
    fix e' d i
    assume e': "e' \<in> set rules" and d: "d \<in> set (dets ?st1)"
      and eq: "masked d = mask_label (label (snd e')) (Num i)"
    from d have "masked d \<in> set (map masked (dets ?st1))" by simp
    then have "masked d \<in> set (map masked (dets st)) \<or>
        masked d \<in> set (map (\<lambda>i. mask_label (label cfg) (Num i)) [1..<Suc n])"
      by (simp only: m1 set_append Un_iff)
    then show False
    proof
      assume "masked d \<in> set (map masked (dets st))"
      then obtain d' where d': "d' \<in> set (dets st)" "masked d' = masked d"
        by (auto simp: image_iff)
      from Cons.prems(5) e' d'(1)
      have "masked d' \<noteq> mask_label (label (snd e')) (Num i)" by simp
      with d'(2) eq show False by simp
    next
      assume "masked d \<in> set (map (\<lambda>i. mask_label (label cfg) (Num i)) [1..<Suc n])"
      then obtain j where "masked d = mask_label (label cfg) (Num j)" by (auto simp: image_iff)
      with eq have "mask_label (label (snd e')) (Num i) = mask_label (label cfg) (Num j)" by simp
      then have same: "label (snd e') = label cfg" by (rule mask_label_inject[THEN conjunct1])
      from Cons.prems(2) e have "label cfg \<notin> (\<lambda>e. label (snd e)) ` set rules" by simp
      with e' same show False by (simp add: image_iff) metis
    qed
  qed
  from Cons.prems(1) have r1: "distinct (map fst rules)" by simp
  from Cons.prems(2) have r2: "distinct (map (\<lambda>e. label (snd e)) rules)" by simp
  from Cons.prems(3) have r3: "\<forall>e\<in>set rules. fst e \<notin> set Object_prototype_keys" by simp
  have "distinct (map masked (dets (fold mask_rule rules ?st1)))"
    by (rule Cons.IH[OF r1 r2 r3 keys labels d1 b7])
  with e show ?case by simp
qed

lemma patternsToUse_distinct:
  "distinct (map fst (patterns this)) \<Longrightarrow> distinct (map fst (patternsToUse this en))"
  by (cases en) (simp_all add: patternsToUse_def distinct_map_filter)

text \<open>
  Claim C3 as stated fails: a custom rule may carry the label of another rule.
  With \<^verbatim>\<open>addCustomPattern('nick', /Bob/g, 'Person', '')\<close> the name and the nickname in
  ``Tanaka Taro san Bob'' both get the placeholder \<^verbatim>\<open>[Person_A]\<close>.
\<close>

lemma name_nick: "RegExp_g name_regex (tanaka_taro_san @ js '' Bob'') = [(0, tanaka_taro_san)]"
  by (simp add: regex_defs tanaka_taro_san_def)

lemma nick_nick: "RegExp_g (Lit (js ''Bob'')) (js ''[Person_A] Bob'') = [(11, js ''Bob'')]"
  by (simp add: regex_defs)

lemma nick_patterns:
  "patterns (addCustomPattern (fst (MaskingEngine_new [])) (js ''nick'') (RegExp_g (Lit (js ''Bob'')))
     (js ''Person'') []) =
   builtin_patterns @
     [(js ''nick'', \<lparr>regex = RegExp_g (Lit (js ''Bob'')), label = js ''Person'', description = []\<rparr>)]"
  by (simp add: addCustomPattern_def patterns_new object_set_def builtin_keys array_index_def
      is_digit_def js_def)

lemma nick_pass:
  "map masked (dets (mask_pass
     (builtin_patterns @
       [(js ''nick'', \<lparr>regex = RegExp_g (Lit (js ''Bob'')), label = js ''Person'', description = []\<rparr>)])
     (tanaka_taro_san @ js '' Bob''))) = [js ''[Person_A]'', js ''[Person_A]'']"
  apply (simp add: mask_pass_def builtin_patterns_def)
  apply (simp add: mask_rule_matches[OF trans[OF _ name_nick]] pass_defs tanaka_taro_san_def)
  apply (simp add: mask_rule_no_match email_no_match phone_no_match address_no_match
      company_no_match)
  apply (simp add: mask_rule_matches[OF trans[OF _ nick_nick]] pass_defs)
  done

theorem same_label_same_placeholder:
  "\<not> distinct (map masked (detections (fst
      (mask (snd (MaskingEngine_new []))
         (addCustomPattern (fst (MaskingEngine_new [])) (js ''nick'') (RegExp_g (Lit (js ''Bob'')))
            (js ''Person'') [])
         (tanaka_taro_san @ js '' Bob'') None))))"
proof -
  have "tanaka_taro_san @ js '' Bob'' \<noteq> []" by (simp add: js_def)
  then show ?thesis
    by (simp add: mask_nonempty patternsToUse_def nick_patterns nick_pass rev_map[symmetric])
qed

text \<open>
  Claim C3, amended. In a registry with unique keys, when the active rules have
  pairwise distinct labels, no active key is the name of a member of
  \<^verbatim>\<open>Object.prototype\<close>, and no rule makes more than 65536 replacements in the pass, the
  placeholders generated by one call of \<open>mask\<close> are pairwise distinct.
\<close>

theorem placeholders_distinct:
  assumes "distinct (map fst (patterns this))"
    and "distinct (map (\<lambda>e. label (snd e)) (patternsToUse this en))"
    and "\<forall>e\<in>set (patternsToUse this en). fst e \<notin> set Object_prototype_keys"
    and "\<forall>k. length (filter (\<lambda>d. type d = k) (detections (fst (mask h this t en)))) \<le> 65536"
  shows "distinct (map masked (detections (fst (mask h this t en))))"
proof (cases "t = []")
  case True
  then show ?thesis by (simp add: mask_empty)
next
  case False
  let ?rules = "patternsToUse this en"
  from assms(4) False
  have bound: "\<forall>k. length (filter (\<lambda>d. type d = k) (dets (mask_pass ?rules t))) \<le> 65536"
    by (simp add: mask_nonempty rev_filter[symmetric])
  have "distinct (map masked (dets (mask_pass ?rules t)))"
    unfolding mask_pass_def
    by (rule pass_placeholders_distinct)
       (use assms(1,2,3) bound in \<open>simp_all add: patternsToUse_distinct mask_pass_def\<close>)
  with False show ?thesis by (simp add: mask_nonempty rev_map[symmetric])
qed

theorem placeholders_distinct_witness:
  "distinct (map fst (patterns (fst (MaskingEngine_new [])))) \<and>
   distinct (map (\<lambda>e. label (snd e)) (patternsToUse (fst (MaskingEngine_new [])) None)) \<and>
   list_all (\<lambda>e. fst e \<notin> set Object_prototype_keys) (patternsToUse (fst (MaskingEngine_new [])) None) \<and>
   (\<forall>k. length (filter (\<lambda>d. type d = k) (detections (fst
      (mask (snd (MaskingEngine_new [])) (fst (MaskingEngine_new [])) scenario_text None)))) \<le> 65536) \<and>
   map masked (detections (fst
      (mask (snd (MaskingEngine_new [])) (fst (MaskingEngine_new [])) scenario_text None))) =
     [js ''[Email_A]'', js ''[Person_A]''] \<and>
   distinct (map masked (detections (fst
      (mask (snd (MaskingEngine_new [])) (fst (MaskingEngine_new [])) scenario_text None))))"
proof -
  have keys: "distinct (map fst (patterns (fst (MaskingEngine_new []))))"
    by (simp only: patterns_new builtin_keys_ok)
  have labels: "distinct (map (\<lambda>e. label (snd e)) (patternsToUse (fst (MaskingEngine_new [])) None))"
    by (simp add: patternsToUse_def patterns_new builtin_patterns_def js_def)
  have proto: "\<forall>e\<in>set (patternsToUse (fst (MaskingEngine_new [])) None).
      fst e \<notin> set Object_prototype_keys"
    by (simp add: patternsToUse_def patterns_new builtin_patterns_def Object_prototype_keys_def js_def)
  have dets: "detections (fst (mask (snd (MaskingEngine_new [])) (fst (MaskingEngine_new []))
      scenario_text None)) = rev (dets (mask_pass builtin_patterns scenario_text))"
    by (simp add: mask_new_scenario)
  have bound: "\<forall>k. length (filter (\<lambda>d. type d = k) (detections (fst
      (mask (snd (MaskingEngine_new [])) (fst (MaskingEngine_new [])) scenario_text None)))) \<le> 65536"
    by (simp add: dets scenario_pass)
  have phs: "map masked (detections (fst
      (mask (snd (MaskingEngine_new [])) (fst (MaskingEngine_new [])) scenario_text None))) =
     [js ''[Email_A]'', js ''[Person_A]'']"
    by (simp add: dets scenario_pass)
  from placeholders_distinct[OF keys labels proto bound] keys labels proto bound phs
  show ?thesis by (simp add: list_all_iff)
qed


section \<open>\<open>replaceAll\<close> and \<open>restore\<close> on segments\<close>

lemma dollar_free_GetSubstitution:
  "dollar_free template \<Longrightarrow> GetSubstitution matched str position template = template"
  by (induction template rule: dollar_free.induct) auto

lemma dollar_free_tl: "dollar_free (c # s) \<Longrightarrow> dollar_free s"
  by (cases s) auto

lemma dollar_free_append: "dollar_free (a @ b) \<Longrightarrow> dollar_free a \<and> dollar_free b"
proof (induction a rule: dollar_free.induct)
  case 1
  then show ?case by simp
next
  case (2 c)
  then show ?case by (auto dest: dollar_free_tl)
next
  case (3 c d cs)
  then show ?case by auto
qed

lemma dollar_free_take: "dollar_free s \<Longrightarrow> dollar_free (take i s)"
  using dollar_free_append[of "take i s" "drop i s"] by simp

lemma dollar_free_drop: "dollar_free s \<Longrightarrow> dollar_free (drop i s)"
  using dollar_free_append[of "take i s" "drop i s"] by simp

text \<open>Scanning over a stretch without an occurrence, and over an occurrence.\<close>

lemma replace_from_skip:
  "(\<forall>j<length u. \<not> startsWith (drop j u @ v) p) \<Longrightarrow>
   replace_from p rep str i (u @ v) = u @ replace_from p rep str (i + length u) v"
proof (induction u arbitrary: i)
  case Nil
  then show ?case by simp
next
  case (Cons c u)
  from Cons.prems have "\<not> startsWith (c # u @ v) p" by force
  moreover have "\<forall>j<length u. \<not> startsWith (drop j u @ v) p"
  proof (intro allI impI)
    fix j
    assume "j < length u"
    then have "Suc j < length (c # u)" by simp
    with Cons.prems have "\<not> startsWith (drop (Suc j) (c # u) @ v) p" by blast
    then show "\<not> startsWith (drop j u @ v) p" by simp
  qed
  ultimately show ?case using Cons.IH[of "Suc i"] by simp
qed

lemma replace_from_hit:
  assumes "p \<noteq> []"
  shows "replace_from p rep str i (p @ v) =
         GetSubstitution p str i rep @ replace_from p rep str (i + length p) v"
proof -
  from assms obtain c cs where p: "p @ v = c # cs" by (cases p) auto
  have "startsWith (p @ v) p" by (simp add: startsWith_def)
  with assms p have "replace_from p rep str i (c # cs) =
      GetSubstitution p str i rep @
      replace_from p rep str (i + length p) (drop (length p) (c # cs))"
    by simp
  then show ?thesis by (simp add: p[symmetric])
qed

text \<open>Plain placeholders: a bracket, a body without brackets, a bracket.\<close>

lemma plain_placeholder_iff:
  "plain_placeholder p = (\<exists>body. p = 91 # body @ [93] \<and> 91 \<notin> set body \<and> 93 \<notin> set body)"
proof
  assume "plain_placeholder p"
  then obtain cs where p: "p = 91 # cs" and cs: "cs \<noteq> []" "last cs = 93"
    "91 \<notin> set (butlast cs)" "93 \<notin> set (butlast cs)"
    by (auto simp: plain_placeholder_def split: list.splits)
  from cs(1,2) have "cs = butlast cs @ [93]" by (metis append_butlast_last_id)
  with p cs show "\<exists>body. p = 91 # body @ [93] \<and> 91 \<notin> set body \<and> 93 \<notin> set body" by metis
next
  assume "\<exists>body. p = 91 # body @ [93] \<and> 91 \<notin> set body \<and> 93 \<notin> set body"
  then show "plain_placeholder p" by (auto simp: plain_placeholder_def)
qed

lemma plain_placeholder_nonempty: "plain_placeholder p \<Longrightarrow> p \<noteq> []"
  by (auto simp: plain_placeholder_iff)

lemma takeWhile_body: "93 \<notin> set b \<Longrightarrow> takeWhile (\<lambda>c. c \<noteq> 93) (b @ 93 # v) = b"
  by (induction b) auto

text \<open>
  An occurrence of a plain placeholder that begins inside a plain placeholder is
  that placeholder itself.
\<close>

lemma plain_no_overlap:
  assumes "plain_placeholder p" and "plain_placeholder q" and "j < length q"
    and "startsWith (drop j q @ v) p"
  shows "j = 0 \<and> q = p"
proof -
  from assms(1) obtain bp where p: "p = 91 # bp @ [93]" "93 \<notin> set bp"
    by (auto simp: plain_placeholder_iff)
  from assms(2) obtain bq where q: "q = 91 # bq @ [93]" "91 \<notin> set bq" "93 \<notin> set bq"
    by (auto simp: plain_placeholder_iff)
  from assms(4) have pre: "prefix p (drop j q @ v)" by (simp add: startsWith_prefix)
  have j0: "j = 0"
  proof (rule ccontr)
    assume "j \<noteq> 0"
    then obtain j' where j': "j = Suc j'" by (cases j) auto
    with assms(3) q have lt: "j' < length (bq @ [93])" by simp
    from j' q have d: "drop j q = drop j' (bq @ [93])" by simp
    from lt obtain c r where cr: "drop j' (bq @ [93]) = c # r"
      by (cases "drop j' (bq @ [93])") auto
    then have "c \<in> set (bq @ [93])" by (metis in_set_dropD list.set_intros(1))
    with q have "c \<noteq> 91" by auto
    moreover have "c = 91"
    proof -
      from pre have "prefix p ((c # r) @ v)" by (simp only: d cr)
      with p show ?thesis by simp
    qed
    ultimately show False by simp
  qed
  with pre p q have "prefix (bp @ [93]) (bq @ 93 # v)" by simp
  then obtain z where "bq @ 93 # v = bp @ 93 # z" by (auto simp: prefix_def)
  then have "takeWhile (\<lambda>c. c \<noteq> 93) (bq @ 93 # v) = takeWhile (\<lambda>c. c \<noteq> 93) (bp @ 93 # z)"
    by simp
  with p q have "bq = bp" by (simp add: takeWhile_body)
  with p q j0 show ?thesis by simp
qed

lemma set_lead: "set (lead segs) \<subseteq> set (lits segs)"
  by (induction segs rule: lead.induct) auto

text \<open>A piece of the masked text without \<^verbatim>\<open>[\<close> ends before the first placeholder.\<close>

lemma prefix_lead:
  assumes "\<forall>e\<in>set (marks segs). plain_placeholder (fst e)"
    and "prefix x (flat segs)" and "91 \<notin> set x"
  shows "prefix x (lead segs)"
  using assms
proof (induction segs arbitrary: x rule: lead.induct)
  case 1
  then show ?case by simp
next
  case (2 s r)
  from "2.prems"(2) have "prefix x (s @ flat r)" by simp
  then consider "prefix x s" | x' where "x = s @ x'" "prefix x' (flat r)"
    by (auto simp: prefix_append)
  then show ?case
  proof cases
    case 1
    then show ?thesis by (simp add: prefix_def) (metis append.assoc)
  next
    case 2
    with "2.prems" have "prefix x' (lead r)" by (intro "2.IH") auto
    with 2 show ?thesis by simp
  qed
next
  case (3 p orig r)
  from "3.prems"(1) obtain b where p: "p = 91 # b" by (auto simp: plain_placeholder_iff)
  have "x = []"
  proof (cases x)
    case Nil
    then show ?thesis .
  next
    case (Cons c x')
    with "3.prems"(2) p have "c = 91" by simp
    with Cons "3.prems"(3) show ?thesis by simp
  qed
  then show ?case by simp
qed

lemma no_masked_substring_suffix:
  "no_masked_substring (a @ b) \<Longrightarrow> no_masked_substring b"
proof (induction a)
  case Nil
  then show ?case by simp
next
  case (Cons c a)
  show ?case
  proof (cases "c = 91")
    case True
    with Cons.prems have "93 \<notin> set (a @ b)" by simp
    then show ?thesis by (simp add: no_masked_substring_no_close)
  next
    case False
    with Cons show ?thesis by simp
  qed
qed

text \<open>An occurrence of a plain placeholder does not begin in unmasked source text.\<close>

lemma text_no_occurrence:
  assumes "plain_placeholder p"
    and "\<forall>e\<in>set (marks r). plain_placeholder (fst e)"
    and "no_masked_substring (s @ lits r)"
    and "j < length s"
  shows "\<not> startsWith (drop j s @ flat r) p"
proof
  assume "startsWith (drop j s @ flat r) p"
  then have pre: "prefix p (drop j s @ flat r)" by (simp add: startsWith_prefix)
  from assms(1) obtain bp where p: "p = 91 # bp @ [93]" "91 \<notin> set bp"
    by (auto simp: plain_placeholder_iff)
  from assms(4) have dj: "drop j s = s ! j # drop (Suc j) s" by (simp add: Cons_nth_drop_Suc)
  with pre p have sj: "s ! j = 91" and rest: "prefix (bp @ [93]) (drop (Suc j) s @ flat r)"
    by simp_all
  have "prefix (bp @ [93]) (flat (Text (drop (Suc j) s) # r))" using rest by simp
  moreover have "\<forall>e\<in>set (marks (Text (drop (Suc j) s) # r)). plain_placeholder (fst e)"
    using assms(2) by simp
  moreover have "91 \<notin> set (bp @ [93])" using p(2) by simp
  ultimately have "prefix (bp @ [93]) (lead (Text (drop (Suc j) s) # r))"
    by (intro prefix_lead)
  then obtain zs where "lead (Text (drop (Suc j) s) # r) = (bp @ [93]) @ zs"
    by (auto simp: prefix_def)
  then have "set (lead (Text (drop (Suc j) s) # r)) = set ((bp @ [93]) @ zs)" by simp
  then have "93 \<in> set (lead (Text (drop (Suc j) s) # r))" by simp
  with set_lead[of "Text (drop (Suc j) s) # r"]
  have in_rest: "93 \<in> set (drop (Suc j) s @ lits r)" by auto
  have "s @ lits r = take j s @ 91 # (drop (Suc j) s @ lits r)"
    using assms(4) sj by (metis append.assoc append_Cons append_take_drop_id dj)
  from no_masked_substring_split[OF assms(3) this] in_rest show False by simp
qed

text \<open>
  Replacing a plain placeholder in a masked text puts the source text back at its
  marks and nowhere else.
\<close>

lemma replace_on_segs:
  assumes "plain_placeholder p" and "dollar_free orig"
    and "\<forall>e\<in>set (marks segs). plain_placeholder (fst e) \<and> (fst e = p \<longrightarrow> snd e = orig)"
    and "no_masked_substring (lits segs)"
  shows "replace_from p orig str i (flat segs) = flat (unmark p segs)"
  using assms(3,4)
proof (induction segs arbitrary: i rule: lits.induct)
  case 1
  then show ?case by simp
next
  case (2 s r)
  from "2.prems" have plain_r: "\<forall>e\<in>set (marks r). plain_placeholder (fst e)" by simp
  from "2.prems"(2) have ns: "no_masked_substring (s @ lits r)" by simp
  have "\<forall>j<length s. \<not> startsWith (drop j s @ flat r) p"
    using text_no_occurrence[OF assms(1) plain_r ns] by blast
  then have "replace_from p orig str i (s @ flat r) =
      s @ replace_from p orig str (i + length s) (flat r)"
    by (rule replace_from_skip)
  moreover have "replace_from p orig str (i + length s) (flat r) = flat (unmark p r)"
    using "2.prems"(1) no_masked_substring_suffix[OF ns] by (intro "2.IH") simp_all
  ultimately show ?case by simp
next
  case (3 q o' r)
  from "3.prems"(1) have q: "plain_placeholder q" and same: "q = p \<longrightarrow> o' = orig" by simp_all
  have ih: "\<And>i. replace_from p orig str i (flat r) = flat (unmark p r)"
    using "3.prems" by (intro "3.IH") simp_all
  show ?case
  proof (cases "q = p")
    case True
    with same have "o' = orig" by simp
    moreover have "replace_from p orig str i (p @ flat r) =
        GetSubstitution p str i orig @ replace_from p orig str (i + length p) (flat r)"
      by (rule replace_from_hit) (rule plain_placeholder_nonempty[OF assms(1)])
    ultimately show ?thesis
      using True ih by (simp add: dollar_free_GetSubstitution[OF assms(2)])
  next
    case False
    have "\<forall>j<length q. \<not> startsWith (drop j q @ flat r) p"
      using plain_no_overlap[OF assms(1) q] False by blast
    then have "replace_from p orig str i (q @ flat r) =
        q @ replace_from p orig str (i + length q) (flat r)"
      by (rule replace_from_skip)
    with False ih show ?thesis by simp
  qed
qed

lemma source_unmark: "source (unmark p segs) = source segs"
  by (induction segs rule: lits.induct) auto

lemma marks_unmark: "marks (unmark p segs) = filter (\<lambda>e. fst e \<noteq> p) (marks segs)"
  by (induction segs rule: lits.induct) auto

lemma no_marks_flat: "marks segs = [] \<Longrightarrow> flat segs = source segs"
  by (induction segs rule: lits.induct) auto

lemma subseq_lits_source: "subseq (lits segs) (source segs)"
proof (induction segs rule: lits.induct)
  case 1
  then show ?case by simp
next
  case (2 s r)
  then show ?case by (simp add: subseq_append')
next
  case (3 p orig r)
  then show ?case by (simp add: subseq_drop_many)
qed

lemma subseq_set: "subseq xs ys \<Longrightarrow> set xs \<subseteq> set ys"
  by (induction rule: list_emb.induct) auto

lemma no_masked_substring_subseq:
  "subseq xs ys \<Longrightarrow> no_masked_substring ys \<Longrightarrow> no_masked_substring xs"
proof (induction rule: list_emb.induct)
  case (list_emb_Nil ys)
  then show ?case by simp
next
  case (list_emb_Cons xs ys y)
  from list_emb_Cons.prems have "no_masked_substring ys"
    using no_masked_substring_suffix[of "[y]" ys] by simp
  with list_emb_Cons.IH show ?case by simp
next
  case (list_emb_Cons2 x y xs ys)
  show ?case
  proof (cases "y = 91")
    case True
    with list_emb_Cons2.prems have "93 \<notin> set ys" by simp
    with subseq_set[OF list_emb_Cons2.hyps(2)] have "93 \<notin> set xs" by blast
    with True list_emb_Cons2.hyps(1) show ?thesis by simp
  next
    case False
    with list_emb_Cons2.prems have "no_masked_substring ys" by simp
    then have "no_masked_substring xs" by (rule list_emb_Cons2.IH)
    with False list_emb_Cons2.hyps(1) show ?thesis by simp
  qed
qed

text \<open>
  \<open>restore\<close> with a table that holds every mark of the masked text, under distinct
  plain keys, gives the source text back.
\<close>

lemma restore_fold_segs:
  assumes "distinct (map fst table)"
    and "\<forall>e\<in>set table. plain_placeholder (fst e) \<and> dollar_free (snd e)"
    and "set (marks segs) \<subseteq> set table"
    and "no_masked_substring (source segs)"
  shows "fold (\<lambda>entry restoredText. replaceAll restoredText (fst entry) (snd entry)) table
           (flat segs) = source segs"
  using assms
proof (induction table arbitrary: segs)
  case Nil
  then have "marks segs = []" by simp
  then show ?case by (simp add: no_marks_flat)
next
  case (Cons e table)
  obtain p orig where e: "e = (p, orig)" by (cases e)
  from Cons.prems(2) e have p: "plain_placeholder p" and o: "dollar_free orig" by simp_all
  have marks_ok: "\<forall>e'\<in>set (marks segs). plain_placeholder (fst e') \<and> (fst e' = p \<longrightarrow> snd e' = orig)"
  proof
    fix e'
    assume "e' \<in> set (marks segs)"
    with Cons.prems(3) have in_t: "e' \<in> set (e # table)" by blast
    with Cons.prems(2) have "plain_placeholder (fst e')" by blast
    moreover have "fst e' = p \<longrightarrow> snd e' = orig"
    proof
      assume "fst e' = p"
      show "snd e' = orig"
      proof (cases "e' = e")
        case True
        with e show ?thesis by simp
      next
        case False
        with in_t have "e' \<in> set table" by simp
        then have "fst e' \<in> set (map fst table)" by simp
        moreover from Cons.prems(1) e have "p \<notin> set (map fst table)" by simp
        ultimately show ?thesis using \<open>fst e' = p\<close> by simp
      qed
    qed
    ultimately show "plain_placeholder (fst e') \<and> (fst e' = p \<longrightarrow> snd e' = orig)" ..
  qed
  have "no_masked_substring (lits segs)"
    using subseq_lits_source Cons.prems(4) by (rule no_masked_substring_subseq)
  with p o marks_ok
  have "replace_from p orig (flat segs) 0 (flat segs) = flat (unmark p segs)"
    by (intro replace_on_segs)
  with p have step: "replaceAll (flat segs) p orig = flat (unmark p segs)"
    by (simp add: replaceAll_def plain_placeholder_nonempty)
  have sub: "set (marks (unmark p segs)) \<subseteq> set table"
    using Cons.prems(3) e by (auto simp: marks_unmark)
  from Cons.prems(1,2) have "distinct (map fst table)"
    "\<forall>e\<in>set table. plain_placeholder (fst e) \<and> dollar_free (snd e)" by simp_all
  with sub Cons.prems(4)
  have "fold (\<lambda>entry restoredText. replaceAll restoredText (fst entry) (snd entry)) table
      (flat (unmark p segs)) = source (unmark p segs)"
    by (intro Cons.IH) (simp_all add: source_unmark)
  with e step show ?case by (simp add: source_unmark)
qed

lemma flat_empty_source:
  assumes "\<forall>e\<in>set (marks segs). plain_placeholder (fst e)" and "flat segs = []"
  shows "source segs = []"
  using assms
proof (induction segs rule: lits.induct)
  case (3 p orig r)
  then show ?case by (auto dest: plain_placeholder_nonempty)
qed auto

lemma restore_segs:
  assumes "distinct (map fst table)"
    and "\<forall>e\<in>set table. plain_placeholder (fst e) \<and> dollar_free (snd e)"
    and "set (marks segs) \<subseteq> set table"
    and "no_masked_substring (source segs)"
  shows "restore (flat segs) table = source segs"
proof (cases "flat segs = []")
  case True
  from assms(2,3) have "\<forall>e\<in>set (marks segs). plain_placeholder (fst e)" by blast
  from flat_empty_source[OF this True] True show ?thesis by (simp add: restore_def)
next
  case False
  with restore_fold_segs[OF assms] show ?thesis by (simp add: restore_def)
qed


section \<open>The round trip\<close>

lemma put_flat:
  "put i m p segs = Some segs' \<Longrightarrow>
   flat segs' = take i (flat segs) @ p @ drop (i + length m) (flat segs)"
proof (induction i m p segs arbitrary: segs' rule: put.induct)
  case (1 i m p)
  then show ?case by simp
next
  case (2 i m p s r)
  show ?case
  proof (cases "i + length m \<le> length s \<and> take (length m) (drop i s) = m")
    case True
    with "2.prems" have "segs' = Text (take i s) # Mark p m # Text (drop (i + length m) s) # r"
      by simp
    with True show ?thesis by simp
  next
    case False
    with "2.prems" have le: "length s \<le> i" by (auto split: if_splits)
    with False "2.prems" obtain r' where r': "put (i - length s) m p r = Some r'"
      "segs' = Text s # r'" by auto
    from "2.IH"[OF False le r'(1)] le r'(2) show ?thesis by simp
  qed
next
  case (3 i m p q orig r)
  from "3.prems" have le: "length q \<le> i" by (auto split: if_splits)
  with "3.prems" obtain r' where r': "put (i - length q) m p r = Some r'"
    "segs' = Mark q orig # r'" by auto
  from "3.IH"[OF le r'(1)] le r'(2) show ?case by simp
qed

lemma put_source: "put i m p segs = Some segs' \<Longrightarrow> source segs' = source segs"
proof (induction i m p segs arbitrary: segs' rule: put.induct)
  case (1 i m p)
  then show ?case by simp
next
  case (2 i m p s r)
  show ?case
  proof (cases "i + length m \<le> length s \<and> take (length m) (drop i s) = m")
    case True
    with "2.prems" have s': "segs' = Text (take i s) # Mark p m # Text (drop (i + length m) s) # r"
      by simp
    have "drop i s = take (length m) (drop i s) @ drop (length m) (drop i s)"
      by (simp only: append_take_drop_id)
    also have "\<dots> = m @ drop (i + length m) s" using True by (simp add: add.commute)
    finally have "drop i s = m @ drop (i + length m) s" .
    then have "s = take i s @ m @ drop (i + length m) s" by (metis append_take_drop_id)
    with s' show ?thesis by simp
  next
    case False
    with "2.prems" have le: "length s \<le> i" by (auto split: if_splits)
    with False "2.prems" obtain r' where r': "put (i - length s) m p r = Some r'"
      "segs' = Text s # r'" by auto
    from "2.IH"[OF False le r'(1)] r'(2) show ?thesis by simp
  qed
next
  case (3 i m p q orig r)
  from "3.prems" have le: "length q \<le> i" by (auto split: if_splits)
  with "3.prems" obtain r' where r': "put (i - length q) m p r = Some r'"
    "segs' = Mark q orig # r'" by auto
  from "3.IH"[OF le r'(1)] r'(2) show ?case by simp
qed

lemma put_marks:
  "put i m p segs = Some segs' \<Longrightarrow> set (marks segs') = insert (p, m) (set (marks segs))"
proof (induction i m p segs arbitrary: segs' rule: put.induct)
  case (1 i m p)
  then show ?case by simp
next
  case (2 i m p s r)
  show ?case
  proof (cases "i + length m \<le> length s \<and> take (length m) (drop i s) = m")
    case True
    with "2.prems" show ?thesis by auto
  next
    case False
    with "2.prems" have le: "length s \<le> i" by (auto split: if_splits)
    with False "2.prems" obtain r' where r': "put (i - length s) m p r = Some r'"
      "segs' = Text s # r'" by auto
    from "2.IH"[OF False le r'(1)] r'(2) show ?thesis by simp
  qed
next
  case (3 i m p q orig r)
  from "3.prems" have le: "length q \<le> i" by (auto split: if_splits)
  with "3.prems" obtain r' where r': "put (i - length q) m p r = Some r'"
    "segs' = Mark q orig # r'" by auto
  from "3.IH"[OF le r'(1)] r'(2) show ?case by auto
qed

lemma put_ok:
  "put i m p segs = Some segs' \<Longrightarrow> list_all seg_ok segs \<Longrightarrow> list_all seg_ok segs'"
proof (induction i m p segs arbitrary: segs' rule: put.induct)
  case (1 i m p)
  then show ?case by simp
next
  case (2 i m p s r)
  show ?case
  proof (cases "i + length m \<le> length s \<and> take (length m) (drop i s) = m")
    case True
    with "2.prems" have s': "segs' = Text (take i s) # Mark p m # Text (drop (i + length m) s) # r"
      by simp
    from "2.prems"(2) have s: "dollar_free s" by simp
    with True have "dollar_free m" by (metis dollar_free_take dollar_free_drop)
    with s s' "2.prems"(2) show ?thesis by (simp add: dollar_free_take dollar_free_drop)
  next
    case False
    with "2.prems" have le: "length s \<le> i" by (auto split: if_splits)
    with False "2.prems" obtain r' where r': "put (i - length s) m p r = Some r'"
      "segs' = Text s # r'" by auto
    from "2.IH"[OF False le r'(1)] "2.prems"(2) r'(2) show ?thesis by simp
  qed
next
  case (3 i m p q orig r)
  from "3.prems" have le: "length q \<le> i" by (auto split: if_splits)
  with "3.prems" obtain r' where r': "put (i - length q) m p r = Some r'"
    "segs' = Mark q orig # r'" by auto
  from "3.IH"[OF le r'(1)] "3.prems"(2) r'(2) show ?case by simp
qed

text \<open>The loops with segments go through the same states as the loops of \<open>mask\<close>.\<close>

lemma clean_match_None: "clean_match k cfg m None = None"
  by (simp add: clean_match_def)

lemma fold_clean_match_None: "fold (clean_match k cfg) ms None = None"
  by (induction ms) (simp_all add: clean_match_None)

lemma clean_rule_None: "clean_rule e None = None"
  by (simp add: clean_rule_def)

lemma fold_clean_rule_None: "fold clean_rule rules None = None"
  by (induction rules) (simp_all add: clean_rule_None)

lemma clean_match_Some:
  assumes "clean_match k cfg m (Some (st, segs)) = Some (st', segs')"
  shows "st' = mask_match k cfg m st"
    and "already_masked (snd m) \<Longrightarrow> segs' = segs"
    and "\<not> already_masked (snd m) \<Longrightarrow> put (fst m) (snd m) (next_label k cfg st) segs = Some segs'"
  using assms
  by (auto simp: clean_match_def mask_match_skip split: if_splits option.splits)

lemma distinct_prefix: "distinct (map f ys) \<Longrightarrow> prefix xs ys \<Longrightarrow> distinct (map f xs)"
  by (auto simp: prefix_def)

lemma ghost_inv_match:
  assumes inv: "ghost_inv t st segs"
    and step: "clean_match k cfg m (Some (st, segs)) = Some (st', segs')"
    and dist: "distinct (map masked (dets st'))"
  shows "ghost_inv t st' segs'"
proof (cases "already_masked (snd m)")
  case True
  with clean_match_Some[OF step] inv show ?thesis by (simp add: mask_match_skip)
next
  case False
  let ?p = "next_label k cfg st"
  from clean_match_Some[OF step] False
  have st': "st' = mask_match k cfg m st" and put: "put (fst m) (snd m) ?p segs = Some segs'"
    by simp_all
  from inv have flat: "flat segs = mtext st" and src: "source segs = t"
    and tbl: "tbl st = map (\<lambda>d. (masked d, original d)) (dets st)"
    and mk: "set (marks segs) = set (tbl st)" and ok: "list_all seg_ok segs"
    by (simp_all add: ghost_inv_def)
  from dist have "?p \<notin> set (map masked (dets st))"
    by (simp add: st' mask_match_replace[OF False])
  then have fresh: "?p \<notin> set (map fst (tbl st))" by (simp add: tbl comp_def)
  then have "Map_set (tbl st) ?p (snd m) = tbl st @ [(?p, snd m)]"
    by (simp add: Map_set_def)
  then have tbl': "tbl st' = tbl st @ [(?p, snd m)]"
    by (simp add: st' mask_match_replace[OF False])
  have "flat segs' = mtext st'"
    by (simp add: put_flat[OF put] flat st' mask_match_replace[OF False])
  moreover have "source segs' = t" by (simp add: put_source[OF put] src)
  moreover have "tbl st' = map (\<lambda>d. (masked d, original d)) (dets st')"
    by (simp add: tbl' tbl) (simp add: st' mask_match_replace[OF False])
  moreover have "set (marks segs') = set (tbl st')"
    by (simp add: put_marks[OF put] mk tbl')
  moreover have "list_all seg_ok segs'" using put ok by (rule put_ok)
  ultimately show ?thesis by (simp add: ghost_inv_def)
qed

lemma clean_matches_mirror:
  "fold (clean_match k cfg) ms (Some (st, segs)) = Some (st', segs') \<Longrightarrow>
   st' = fold (mask_match k cfg) ms st"
proof (induction ms arbitrary: st segs)
  case Nil
  then show ?case by simp
next
  case (Cons m ms)
  show ?case
  proof (cases "clean_match k cfg m (Some (st, segs))")
    case None
    with Cons.prems show ?thesis by (simp add: fold_clean_match_None)
  next
    case (Some g)
    obtain st1 segs1 where g: "g = (st1, segs1)" by (cases g)
    from clean_match_Some(1)[OF Some[unfolded g]] have "st1 = mask_match k cfg m st" .
    moreover from Cons.prems Some g
    have "fold (clean_match k cfg) ms (Some (st1, segs1)) = Some (st', segs')" by simp
    ultimately show ?thesis using Cons.IH by simp
  qed
qed

lemma ghost_inv_matches:
  "fold (clean_match k cfg) ms (Some (st, segs)) = Some (st', segs') \<Longrightarrow>
   ghost_inv t st segs \<Longrightarrow> distinct (map masked (dets st')) \<Longrightarrow> ghost_inv t st' segs'"
proof (induction ms arbitrary: st segs)
  case Nil
  then show ?case by simp
next
  case (Cons m ms)
  show ?case
  proof (cases "clean_match k cfg m (Some (st, segs))")
    case None
    with Cons.prems(1) show ?thesis by (simp add: fold_clean_match_None)
  next
    case (Some g)
    obtain st1 segs1 where g: "g = (st1, segs1)" by (cases g)
    from Cons.prems(1) Some g
    have rest: "fold (clean_match k cfg) ms (Some (st1, segs1)) = Some (st', segs')" by simp
    from clean_matches_mirror[OF rest] have "st' = fold (mask_match k cfg) ms st1" .
    then have "prefix (dets st1) (dets st')"
      by (simp add: fold_dets_prefix mask_match_dets_prefix)
    with Cons.prems(3) have d1: "distinct (map masked (dets st1))" by (rule distinct_prefix)
    have "ghost_inv t st1 segs1"
      by (rule ghost_inv_match[OF Cons.prems(2) Some[unfolded g] d1])
    from Cons.IH[OF rest this Cons.prems(3)] show ?thesis .
  qed
qed

lemma clean_rule_Some:
  assumes "clean_rule e (Some (st, segs)) = Some (st', segs')"
  shows "st' = mask_rule e st"
    and "ghost_inv t st segs \<Longrightarrow> distinct (map masked (dets st')) \<Longrightarrow> ghost_inv t st' segs'"
proof -
  show "st' = mask_rule e st"
  proof (cases "regex (snd e) (mtext st) = []")
    case True
    with assms show ?thesis by (simp add: clean_rule_def mask_rule_def)
  next
    case False
    with assms have "fold (clean_match (fst e) (snd e)) (rev (regex (snd e) (mtext st)))
        (Some (st\<lparr>cnt := counter_init (cnt st) (fst e)\<rparr>, segs)) = Some (st', segs')"
      by (simp add: clean_rule_def)
    from clean_matches_mirror[OF this] False show ?thesis by (simp add: mask_rule_def Let_def)
  qed
  assume inv: "ghost_inv t st segs" and dist: "distinct (map masked (dets st'))"
  show "ghost_inv t st' segs'"
  proof (cases "regex (snd e) (mtext st) = []")
    case True
    with assms inv show ?thesis by (simp add: clean_rule_def)
  next
    case False
    with assms have run: "fold (clean_match (fst e) (snd e)) (rev (regex (snd e) (mtext st)))
        (Some (st\<lparr>cnt := counter_init (cnt st) (fst e)\<rparr>, segs)) = Some (st', segs')"
      by (simp add: clean_rule_def)
    from inv have "ghost_inv t (st\<lparr>cnt := counter_init (cnt st) (fst e)\<rparr>) segs"
      by (simp add: ghost_inv_def)
    with run show ?thesis using dist by (rule ghost_inv_matches)
  qed
qed

lemma clean_rules_mirror:
  "fold clean_rule rules (Some (st, segs)) = Some (st', segs') \<Longrightarrow> st' = fold mask_rule rules st"
proof (induction rules arbitrary: st segs)
  case Nil
  then show ?case by simp
next
  case (Cons e rules)
  show ?case
  proof (cases "clean_rule e (Some (st, segs))")
    case None
    with Cons.prems show ?thesis by (simp add: fold_clean_rule_None)
  next
    case (Some g)
    obtain st1 segs1 where g: "g = (st1, segs1)" by (cases g)
    from clean_rule_Some(1)[OF Some[unfolded g]] have "st1 = mask_rule e st" .
    moreover from Cons.prems Some g
    have "fold clean_rule rules (Some (st1, segs1)) = Some (st', segs')" by simp
    ultimately show ?thesis using Cons.IH by simp
  qed
qed

lemma ghost_inv_rules:
  "fold clean_rule rules (Some (st, segs)) = Some (st', segs') \<Longrightarrow>
   ghost_inv t st segs \<Longrightarrow> distinct (map masked (dets st')) \<Longrightarrow> ghost_inv t st' segs'"
proof (induction rules arbitrary: st segs)
  case Nil
  then show ?case by simp
next
  case (Cons e rules)
  show ?case
  proof (cases "clean_rule e (Some (st, segs))")
    case None
    with Cons.prems(1) show ?thesis by (simp add: fold_clean_rule_None)
  next
    case (Some g)
    obtain st1 segs1 where g: "g = (st1, segs1)" by (cases g)
    note one = Some[unfolded g]
    from Cons.prems(1) Some g
    have rest: "fold clean_rule rules (Some (st1, segs1)) = Some (st', segs')" by simp
    from clean_rules_mirror[OF rest] have "prefix (dets st1) (dets st')"
      by (simp add: fold_mask_rule_dets_prefix)
    with Cons.prems(3) have d1: "distinct (map masked (dets st1))" by (rule distinct_prefix)
    from clean_rule_Some(2)[OF one Cons.prems(2) d1] have inv1: "ghost_inv t st1 segs1" .
    from Cons.IH[OF rest inv1 Cons.prems(3)] show ?thesis .
  qed
qed

text \<open>
  After a pass that keeps away from earlier placeholders, with placeholders that
  are plain and pairwise distinct, \<open>restore\<close> gives the text back.
\<close>

lemma pass_roundtrip:
  assumes "no_masked_substring t" and "dollar_free t" and "clean_pass rules t"
    and "distinct (map masked (dets (mask_pass rules t)))"
    and "\<forall>d\<in>set (dets (mask_pass rules t)). plain_placeholder (masked d)"
  shows "restore (mtext (mask_pass rules t)) (tbl (mask_pass rules t)) = t"
proof -
  let ?init = "\<lparr>cnt = Map.empty, tbl = [], mtext = t, dets = []\<rparr>"
  from assms(3) obtain g where "fold clean_rule rules (Some (?init, [Text t])) = Some g"
    by (auto simp: clean_pass_def)
  then obtain st' segs' where run: "fold clean_rule rules (Some (?init, [Text t])) = Some (st', segs')"
    by (cases g) auto
  have init: "ghost_inv t ?init [Text t]" using assms(2) by (simp add: ghost_inv_def)
  from clean_rules_mirror[OF run] have st': "st' = mask_pass rules t" by (simp add: mask_pass_def)
  with assms(4) have "distinct (map masked (dets st'))" by simp
  from ghost_inv_rules[OF run init this] have inv: "ghost_inv t st' segs'" .
  from inv have flat: "flat segs' = mtext st'" and src: "source segs' = t"
    and tbl: "tbl st' = map (\<lambda>d. (masked d, original d)) (dets st')"
    and mk: "set (marks segs') = set (tbl st')" and ok: "list_all seg_ok segs'"
    by (simp_all add: ghost_inv_def)
  have "map fst (tbl st') = map masked (dets st')" by (simp add: tbl comp_def)
  with assms(4) st' have keys: "distinct (map fst (tbl st'))" by simp
  have orig_ok: "\<forall>e\<in>set (marks segs'). dollar_free (snd e)"
    using ok by (induction segs' rule: lits.induct) auto
  have entries: "\<forall>e\<in>set (tbl st'). plain_placeholder (fst e) \<and> dollar_free (snd e)"
  proof
    fix e
    assume e: "e \<in> set (tbl st')"
    then obtain d where "d \<in> set (dets st')" "e = (masked d, original d)" by (auto simp: tbl)
    with assms(5) st' have "plain_placeholder (fst e)" by simp
    moreover from e mk orig_ok have "dollar_free (snd e)" by blast
    ultimately show "plain_placeholder (fst e) \<and> dollar_free (snd e)" ..
  qed
  have "restore (flat segs') (tbl st') = source segs'"
    using keys entries mk assms(1) by (intro restore_segs) (simp_all add: src)
  with flat src st' show ?thesis by simp
qed


lemma clean_rule_no_match:
  "regex cfg (mtext st) = [] \<Longrightarrow> clean_rule (k, cfg) (Some (st, segs)) = Some (st, segs)"
  by (simp add: clean_rule_def)

lemma clean_rule_matches:
  "regex cfg (mtext st) = m # ms \<Longrightarrow>
   clean_rule (k, cfg) (Some (st, segs)) =
     fold (clean_match k cfg) (rev (m # ms)) (Some (st\<lparr>cnt := counter_init (cnt st) k\<rparr>, segs))"
  by (simp add: clean_rule_def)

text \<open>
  Claim C1: for every text \<open>t\<close> that holds no placeholder-shaped substring,
  \<open>restore\<close> of the masked text of \<open>mask t\<close> with the returned mapping table is
  exactly \<open>t\<close>. The code does not do this. With the built-in rules, in
  \<open>kencho_text\<close> the name is replaced by \<^verbatim>\<open>[Person_A]\<close>; the address pattern then
  matches \<^verbatim>\<open>_A]\<close> and the three characters behind it, and replaces them by
  \<^verbatim>\<open>[Location_A]\<close>: the test \<open>already_masked\<close> looks at the match alone, and a match
  that overlaps a placeholder of an earlier rule passes it. The masked text
  \<^verbatim>\<open>[Person[Location_A]\<close> no longer holds the first placeholder, and \<open>restore\<close>
  returns \<^verbatim>\<open>[Person_A]\<close> followed by the three characters instead of the text.
\<close>

theorem roundtrip_fails_on_overlap:
  "no_masked_substring kencho_text \<and>
   (case mask (snd (MaskingEngine_new [])) (fst (MaskingEngine_new [])) kencho_text None of
      (r, this', h') \<Rightarrow> restore (maskedText r) (Map_entries h' (mappingTable r))) =
     js ''[Person_A]'' @ [30476, 24193, 21069] \<and>
   js ''[Person_A]'' @ [30476, 24193, 21069] \<noteq> kencho_text"
proof -
  have ne: "kencho_text \<noteq> []" by (simp add: kencho_text_def tanaka_taro_san_def)
  have "no_masked_substring kencho_text" by (simp add: kencho_text_def tanaka_taro_san_def)
  moreover have "restore (js ''[Person[Location_A]'')
      [(js ''[Person_A]'', tanaka_taro_san), (js ''[Location_A]'', js ''_A]'' @ [30476, 24193, 21069])] =
      js ''[Person_A]'' @ [30476, 24193, 21069]"
    by (simp add: restore_def replaceAll_def startsWith_def js_def tanaka_taro_san_def)
  moreover have "js ''[Person_A]'' @ [30476, 24193, 21069] \<noteq> kencho_text"
    by (simp add: kencho_text_def tanaka_taro_san_def js_def)
  ultimately show ?thesis
    by (simp add: mask_nonempty[OF ne] MaskingEngine_new_def new_Map_def patternsToUse_def
        kencho_pass Map_entries_def)
qed

text \<open>
  The same with an address before a telephone number: the placeholder of the number
  ends up inside the original of the address, \<open>restore\<close> looks for it before it has
  put the address back, and returns Tokyo-to followed by \<^verbatim>\<open>[Phone_A]\<close>.
\<close>

lemma roundtrip_fails_on_address_phone:
  "no_masked_substring tokyo_phone_text \<and>
   (case mask (snd (MaskingEngine_new [])) (fst (MaskingEngine_new [])) tokyo_phone_text None of
      (r, this', h') \<Rightarrow> restore (maskedText r) (Map_entries h' (mappingTable r))) =
     [26481, 20140, 37117, 32] @ js ''[Phone_A]'' \<and>
   [26481, 20140, 37117, 32] @ js ''[Phone_A]'' \<noteq> tokyo_phone_text"
proof -
  have ne: "tokyo_phone_text \<noteq> []" by (simp add: tokyo_phone_text_def)
  have "no_masked_substring tokyo_phone_text" by (simp add: tokyo_phone_text_def js_def)
  moreover have "restore (js ''[Location_A]'')
      [(js ''[Phone_A]'', js ''03-1234-5678''),
       (js ''[Location_A]'', [26481, 20140, 37117, 32] @ js ''[Phone_A]'')] =
      [26481, 20140, 37117, 32] @ js ''[Phone_A]''"
    by (simp add: restore_def replaceAll_def startsWith_def js_def)
  moreover have "[26481, 20140, 37117, 32] @ js ''[Phone_A]'' \<noteq> tokyo_phone_text"
    by (simp add: tokyo_phone_text_def js_def)
  ultimately show ?thesis
    by (simp add: mask_nonempty[OF ne] MaskingEngine_new_def new_Map_def patternsToUse_def
        tokyo_pass Map_entries_def)
qed

text \<open>
  Where the round trip does hold. Let \<open>t\<close> hold no substring that starts with \<^verbatim>\<open>[\<close>
  and ends with \<^verbatim>\<open>]\<close>, and none of the patterns \<^verbatim>\<open>$$\<close>, \<^verbatim>\<open>$&\<close>, \<^verbatim>\<open>$`\<close>, \<^verbatim>\<open>$'\<close> of a
  replacement template. If in the pass every match that is replaced lies, when it
  is replaced, inside text of the input that is still unmasked (\<open>clean_pass\<close>, which
  the two texts above violate), and the placeholders generated are pairwise
  distinct and hold no bracket but the two around them, then \<open>restore\<close> of the
  masked text with the returned mapping table is exactly \<open>t\<close>. These conditions
  are sufficient, not necessary.
\<close>

theorem mask_restore_roundtrip:
  assumes "no_masked_substring t" and "dollar_free t"
    and "clean_pass (patternsToUse this en) t"
    and "distinct (map masked (detections (fst (mask h this t en))))"
    and "\<forall>d\<in>set (detections (fst (mask h this t en))). plain_placeholder (masked d)"
  shows "case mask h this t en of
           (r, this', h') \<Rightarrow> restore (maskedText r) (Map_entries h' (mappingTable r)) = t"
proof (cases "t = []")
  case True
  then show ?thesis by (simp add: mask_empty restore_def)
next
  case False
  let ?st = "mask_pass (patternsToUse this en) t"
  from assms(4) False have d: "distinct (map masked (dets ?st))"
    by (simp add: mask_nonempty rev_map[symmetric])
  from assms(5) False have p: "\<forall>d\<in>set (dets ?st). plain_placeholder (masked d)"
    by (simp add: mask_nonempty)
  from pass_roundtrip[OF assms(1,2,3) d p] False show ?thesis
    by (simp add: mask_nonempty Map_entries_new)
qed

lemma scenario_clean: "clean_pass builtin_patterns scenario_text"
  apply (simp add: clean_pass_def builtin_patterns_def)
  apply (simp add: clean_rule_matches[OF trans[OF _ name_scenario]] clean_match_def next_label_def
      pass_defs scenario_text_def tanaka_taro_san_def)
  apply (simp add: clean_rule_matches[OF trans[OF _ email_scenario]] clean_match_def next_label_def
      pass_defs scenario_text_def tanaka_taro_san_def)
  apply (simp add: clean_rule_no_match phone_no_match address_no_match company_no_match)
  done

text \<open>The scenario of the specification with the built-in rules is such a text.\<close>

theorem mask_restore_roundtrip_witness:
  "no_masked_substring scenario_text \<and> dollar_free scenario_text \<and>
   clean_pass (patternsToUse (fst (MaskingEngine_new [])) None) scenario_text \<and>
   distinct (map masked (detections (fst
     (mask (snd (MaskingEngine_new [])) (fst (MaskingEngine_new [])) scenario_text None)))) \<and>
   list_all (\<lambda>d. plain_placeholder (masked d)) (detections (fst
     (mask (snd (MaskingEngine_new [])) (fst (MaskingEngine_new [])) scenario_text None))) \<and>
   (case mask (snd (MaskingEngine_new [])) (fst (MaskingEngine_new [])) scenario_text None of
      (r, this', h') \<Rightarrow>
        maskedText r = scenario_masked \<and>
        restore (maskedText r) (Map_entries h' (mappingTable r)) = scenario_text)"
proof -
  have a: "no_masked_substring scenario_text"
    by (simp add: scenario_text_def tanaka_taro_san_def js_def)
  have b: "dollar_free scenario_text"
    by (simp add: scenario_text_def tanaka_taro_san_def js_def)
  have c: "clean_pass (patternsToUse (fst (MaskingEngine_new [])) None) scenario_text"
    by (simp add: patternsToUse_def patterns_new scenario_clean)
  have dets: "detections (fst (mask (snd (MaskingEngine_new [])) (fst (MaskingEngine_new []))
      scenario_text None)) = rev (dets (mask_pass builtin_patterns scenario_text))"
    by (simp add: mask_new_scenario)
  have d: "distinct (map masked (detections (fst
     (mask (snd (MaskingEngine_new [])) (fst (MaskingEngine_new [])) scenario_text None))))"
    by (simp add: dets scenario_pass js_def)
  have e: "\<forall>d\<in>set (detections (fst
     (mask (snd (MaskingEngine_new [])) (fst (MaskingEngine_new [])) scenario_text None))).
       plain_placeholder (masked d)"
    by (simp add: dets scenario_pass plain_placeholder_def js_def)
  have f: "maskedText (fst (mask (snd (MaskingEngine_new [])) (fst (MaskingEngine_new []))
      scenario_text None)) = scenario_masked"
    by (simp add: mask_new_scenario scenario_pass)
  from mask_restore_roundtrip[OF a b c d e] a b c d e f show ?thesis
    by (simp add: case_prod_unfold list_all_iff)
qed


section \<open>\<open>restore\<close> and the counter, at the inputs that break them\<close>

text \<open>
  Claim C6, at \<^verbatim>\<open>restore('[Price_A] only', new Map([['[Price_A]', '$$5']]))\<close>: the
  placeholder is found as a literal string, but its original value is used as a
  replacement template, in which \<^verbatim>\<open>$$\<close> stands for one dollar sign. The result is
  \<^verbatim>\<open>$5 only\<close>, not \<^verbatim>\<open>$$5 only\<close>.
\<close>

theorem restore_expands_template:
  "restore (js ''[Price_A] only'') [(js ''[Price_A]'', js ''$$5'')] = js ''$5 only''"
  by (simp add: restore_def replaceAll_def startsWith_def js_def)

text \<open>What holds of \<open>restore\<close> whatever the table holds.\<close>

lemma restore_empty_table: "restore s [] = s"
  by (simp add: restore_def)

lemma restore_empty_text: "restore [] table = []"
  by (simp add: restore_def)

lemma replaceAll_absent:
  assumes "p \<noteq> []" and "\<forall>j<length s. \<not> startsWith (drop j s) p"
  shows "replaceAll s p v = s"
proof -
  from assms(2) have "\<forall>j<length s. \<not> startsWith (drop j s @ []) p" by simp
  then have "replace_from p v s 0 (s @ []) = s @ replace_from p v s (0 + length s) []"
    by (rule replace_from_skip)
  with assms(1) show ?thesis by (simp add: replaceAll_def)
qed

text \<open>
  Claim C7, at a rule whose key is the name of a member of \<^verbatim>\<open>Object.prototype\<close>:
  after \<^verbatim>\<open>addCustomPattern('constructor', /a/g, 'X', '')\<close> the text \<^verbatim>\<open>a a\<close> is masked
  with the same placeholder twice, \<^verbatim>\<open>[X_\<close>, the code unit 0 and \<^verbatim>\<open>]\<close>.
  \<^verbatim>\<open>this.counter['constructor']\<close> is the inherited function, so the counter is not set
  to 0 and \<^verbatim>\<open>++\<close> makes it \<^verbatim>\<open>NaN\<close>.
\<close>

lemma name_a_a: "RegExp_g name_regex [97, 32, 97] = []"
  by (simp add: regex_defs)

lemma lit_a_a: "RegExp_g (Lit [97]) [97, 32, 97] = [(0, [97]), (2, [97])]"
  by (simp add: regex_defs)

lemma constructor_patterns:
  "patterns (addCustomPattern (fst (MaskingEngine_new [])) (js ''constructor'')
     (RegExp_g (Lit (js ''a''))) (js ''X'') []) =
   builtin_patterns @
     [(js ''constructor'', \<lparr>regex = RegExp_g (Lit (js ''a'')), label = js ''X'', description = []\<rparr>)]"
  by (simp add: addCustomPattern_def patterns_new object_set_def builtin_keys array_index_def
      is_digit_def js_def)

lemma constructor_pass:
  "mask_pass
     (builtin_patterns @
       [(js ''constructor'', \<lparr>regex = RegExp_g (Lit (js ''a'')), label = js ''X'', description = []\<rparr>)])
     (js ''a a'') =
   \<lparr>cnt = [js ''constructor'' \<mapsto> NaN],
    tbl = [([91, 88, 95, 0, 93], js ''a'')],
    mtext = [91, 88, 95, 0, 93, 32, 91, 88, 95, 0, 93],
    dets =
      [\<lparr>type = js ''constructor'', description = [], original = js ''a'',
        masked = [91, 88, 95, 0, 93], startIndex = 2, endIndex = 3\<rparr>,
       \<lparr>type = js ''constructor'', description = [], original = js ''a'',
        masked = [91, 88, 95, 0, 93], startIndex = 0, endIndex = 1\<rparr>]\<rparr>"
  apply (simp add: mask_pass_def builtin_patterns_def)
  apply (simp add: mask_rule_no_match name_a_a email_no_match phone_no_match address_no_match
      company_no_match js_def)
  apply (simp add: mask_rule_matches[OF trans[OF _ lit_a_a]] pass_defs)
  done

theorem inherited_key_breaks_counter:
  "(case mask (snd (MaskingEngine_new []))
      (addCustomPattern (fst (MaskingEngine_new [])) (js ''constructor'')
         (RegExp_g (Lit (js ''a''))) (js ''X'') [])
      (js ''a a'') None of
      (r, this', h') \<Rightarrow> (maskedText r, map masked (detections r))) =
   ([91, 88, 95, 0, 93, 32, 91, 88, 95, 0, 93], [[91, 88, 95, 0, 93], [91, 88, 95, 0, 93]])"
proof -
  have "js ''a a'' \<noteq> []" by (simp add: js_def)
  then show ?thesis
    by (simp add: mask_nonempty patternsToUse_def constructor_patterns constructor_pass)
qed

text \<open>
  For every other key the counter does what claim C7 says (\<open>rule_placeholders\<close>):
  the replacements of a rule get the placeholders of the counters 1, 2, ... in the
  order of replacement, which is from the last match to the first; the counters 1
  to 26 are rendered as the letters A to Z.
\<close>

lemma counter_letters:
  "mask_label l (Num 1) = js ''['' @ l @ js ''_A]''"
  "mask_label l (Num 2) = js ''['' @ l @ js ''_B]''"
  "mask_label l (Num 26) = js ''['' @ l @ js ''_Z]''"
  by (simp_all add: mask_label_def fromCharCode_def js_plus_def js_def)

lemma letter_pass:
  "mtext (mask_pass
     [(js ''letter'', \<lparr>regex = RegExp_g (Lit (js ''a'')), label = js ''X'', description = []\<rparr>)]
     (js ''a a'')) = js ''[X_B] [X_A]''"
  apply (simp add: mask_pass_def)
  apply (simp add: mask_rule_matches[OF trans[OF _ lit_a_a]] pass_defs)
  done


end
